theory Spec2Isabelle
  imports Main
begin

section \<open>Colours, array slots and boards\<close>

text \<open>
  The three symbols of \<^verbatim>\<open>app.ts\<close>. \<open>Red\<close> and \<open>Blue\<close> are the active colours,
  \<open>Grey\<close> marks an empty square.
\<close>

datatype color = Red | Blue | Grey

text \<open>
  What a slot of a JavaScript array of colours holds at run time. The declared element
  type is \<open>Color\<close>, but the program reads past the end of rows (in \<open>columns\<close>) and
  writes past their end (in \<open>playMove\<close>), so a slot can also hold \<open>undefined\<close> or be a
  hole of a sparse array. A board handed to the program is dense and holds colours only.
\<close>

datatype cell = Hole | Undefined | Val color

datatype error = TypeError

type_synonym Row = "cell list"
type_synonym Column = "cell list"
type_synonym Board = "cell list list"

text \<open>Reading a slot: a hole reads as \<open>undefined\<close>.\<close>

fun slotValue :: "cell \<Rightarrow> cell" where
  "slotValue Hole = Undefined"
| "slotValue c = c"

text \<open>\<open>row[i]\<close> for a non-negative index: \<open>undefined\<close> past the end.\<close>

definition at :: "cell list \<Rightarrow> nat \<Rightarrow> cell" where
  "at xs i = (if i < length xs then slotValue (xs ! i) else Undefined)"

text \<open>
  \<open>row[i] = v\<close> for an array index \<open>i\<close> (a non-negative integer below \<open>2^32 - 1\<close>): past
  the end the array grows, leaving holes. The callers see to it that \<open>i\<close> is one.
\<close>

definition assign :: "cell list \<Rightarrow> nat \<Rightarrow> cell \<Rightarrow> cell list" where
  "assign xs i v =
     (if i < length xs then xs[i := v]
      else xs @ replicate (i - length xs) Hole @ [v])"

text \<open>\<open>row.entries()\<close>: every index with the value read there.\<close>

definition entries :: "cell list \<Rightarrow> (nat \<times> cell) list" where
  "entries xs = enumerate 0 (map slotValue xs)"

text \<open>A \<open>for ... of\<close> loop whose body returns from the function at the first hit.\<close>

fun firstHit :: "('a \<Rightarrow> 'b option) \<Rightarrow> 'a list \<Rightarrow> 'b option" where
  "firstHit f [] = None"
| "firstHit f (x # xs) = (case f x of Some y \<Rightarrow> Some y | None \<Rightarrow> firstHit f xs)"

text \<open>The same loop when the body can throw.\<close>

fun firstHitE :: "('a \<Rightarrow> error + 'b option) \<Rightarrow> 'a list \<Rightarrow> error + 'b option" where
  "firstHitE f [] = Inr None"
| "firstHitE f (x # xs) =
     (case f x of
        Inl e \<Rightarrow> Inl e
      | Inr (Some y) \<Rightarrow> Inr (Some y)
      | Inr None \<Rightarrow> firstHitE f xs)"

definition rows :: "Board \<Rightarrow> Row list" where
  "rows board = board"

text \<open>
  \<open>columns\<close> builds \<open>board.length\<close> columns (the number of rows, not the length of a
  row), each by reading index \<open>column\<close> of every row.
\<close>

definition columns :: "Board \<Rightarrow> Column list" where
  "columns board = map (\<lambda>column. map (\<lambda>row. at row column) board) [0..<length board]"

section \<open>Board rules\<close>

datatype violation =
    ThriceRepetitionRow nat "nat \<times> nat \<times> nat" cell
  | ThriceRepetitionColumn nat "nat \<times> nat \<times> nat" cell
  | OverSaturationRow nat "nat list" color
  | OverSaturationColumn nat "nat list" color
  | LineRepetitionRows "nat \<times> nat"
  | LineRepetitionColumns "nat \<times> nat"

subsection \<open>Thrice repetition\<close>

definition thriceAt :: "Row \<Rightarrow> nat \<times> cell \<Rightarrow> ((nat \<times> nat \<times> nat) \<times> cell) option" where
  "thriceAt row = (\<lambda>(index, c3).
     if index < 2 then None
     else
       let c2 = at row (index - 1);
           c1 = at row (index - 2)
       in if c1 \<noteq> Val Grey \<and> c1 = c2 \<and> c1 = c3
          then Some ((index - 2, index - 1, index), c1)
          else None)"

definition findThriceRepetitionRow :: "Row \<Rightarrow> ((nat \<times> nat \<times> nat) \<times> cell) option" where
  "findThriceRepetitionRow row = firstHit (thriceAt row) (entries row)"

definition findThriceRepetition :: "Board \<Rightarrow> violation option" where
  "findThriceRepetition board =
     (case firstHit
             (\<lambda>(index, row). map_option (\<lambda>(cs, c). ThriceRepetitionRow index cs c)
                                (findThriceRepetitionRow row))
             (enumerate 0 (rows board)) of
        Some v \<Rightarrow> Some v
      | None \<Rightarrow>
          firstHit
            (\<lambda>(index, column). map_option (\<lambda>(rs, c). ThriceRepetitionColumn index rs c)
                                  (findThriceRepetitionRow column))
            (enumerate 0 (columns board)))"

subsection \<open>Position vectors and over-saturation\<close>

text \<open>
  \<open>positionVectors\<close> is a \<open>reduce\<close> over the row: it skips holes, and on \<open>undefined\<close>
  the lookup \<open>positions[color]\<close> is \<open>undefined\<close>, whose \<open>push\<close> throws.
\<close>

fun positionVectorsFrom ::
  "nat \<Rightarrow> cell list \<Rightarrow> (color \<Rightarrow> nat list) \<Rightarrow> error + (color \<Rightarrow> nat list)" where
  "positionVectorsFrom index [] positions = Inr positions"
| "positionVectorsFrom index (Hole # cs) positions =
     positionVectorsFrom (Suc index) cs positions"
| "positionVectorsFrom index (Undefined # cs) positions = Inl TypeError"
| "positionVectorsFrom index (Val c # cs) positions =
     positionVectorsFrom (Suc index) cs (positions(c := positions c @ [index]))"

definition positionVectors :: "Row \<Rightarrow> error + (color \<Rightarrow> nat list)" where
  "positionVectors row = positionVectorsFrom 0 row (\<lambda>_. [])"

definition findOverSaturationRow :: "Row \<Rightarrow> error + (nat list \<times> color) option" where
  "findOverSaturationRow row =
     (case positionVectors row of
        Inl e \<Rightarrow> Inl e
      | Inr vectors \<Rightarrow>
          if 2 * length (vectors Red) > length row then Inr (Some (vectors Red, Red))
          else if 2 * length (vectors Blue) > length row then Inr (Some (vectors Blue, Blue))
          else Inr None)"

definition findOverSaturation :: "Board \<Rightarrow> error + violation option" where
  "findOverSaturation board =
     (case firstHitE
             (\<lambda>(index, row). map_sum id (map_option (\<lambda>(pv, c). OverSaturationRow index pv c))
                                (findOverSaturationRow row))
             (enumerate 0 (rows board)) of
        Inl e \<Rightarrow> Inl e
      | Inr (Some v) \<Rightarrow> Inr (Some v)
      | Inr None \<Rightarrow>
          firstHitE
            (\<lambda>(index, column). map_sum id (map_option (\<lambda>(pv, c). OverSaturationColumn index pv c))
                                  (findOverSaturationRow column))
            (enumerate 0 (columns board)))"

subsection \<open>Line repetition\<close>

text \<open>Numbers as \<open>join\<close> prints them: decimal digits.\<close>

definition digit :: "nat \<Rightarrow> char" where
  "digit d = char_of (48 + d)"

fun showNat :: "nat \<Rightarrow> string" where
  "showNat n = (if n < 10 then [digit n] else showNat (n div 10) @ [digit (n mod 10)])"

declare showNat.simps [simp del]

fun join :: "nat list \<Rightarrow> string" where
  "join [] = []"
| "join [n] = showNat n"
| "join (n # m # ns) = showNat n @ '':'' @ join (m # ns)"

text \<open>
  One \<open>if\<close> block of the loop body of \<open>findRepeatedRows\<close>, once the block's condition
  holds: look the key up and return the pair when the stored index is truthy (\<open>0\<close> is
  not), else store the current index under the key.
\<close>

definition lookupOrStore ::
  "(string \<rightharpoonup> nat) \<Rightarrow> string \<Rightarrow> nat \<Rightarrow> (nat \<times> nat) + (string \<rightharpoonup> nat)" where
  "lookupOrStore keyToRowIndex key index =
     (case keyToRowIndex key of
        Some matchingRowIndex \<Rightarrow>
          if matchingRowIndex \<noteq> 0 then Inl (matchingRowIndex, index)
          else Inr (keyToRowIndex(key \<mapsto> index))
      | None \<Rightarrow> Inr (keyToRowIndex(key \<mapsto> index)))"

fun findRepeatedRowsFrom ::
  "(string \<rightharpoonup> nat) \<Rightarrow> (nat \<times> Row) list \<Rightarrow> error + (nat \<times> nat) option" where
  "findRepeatedRowsFrom keyToRowIndex [] = Inr None"
| "findRepeatedRowsFrom keyToRowIndex ((index, row) # rest) =
     (case positionVectors row of
        Inl e \<Rightarrow> Inl e
      | Inr vectors \<Rightarrow>
          (case (if 2 * length (vectors Red) \<ge> length row
                 then lookupOrStore keyToRowIndex (''Red::'' @ join (vectors Red)) index
                 else Inr keyToRowIndex) of
             Inl hit \<Rightarrow> Inr (Some hit)
           | Inr keyToRowIndex1 \<Rightarrow>
               (case (if 2 * length (vectors Blue) \<ge> length row
                      then lookupOrStore keyToRowIndex1 (''Blue::'' @ join (vectors Blue)) index
                      else Inr keyToRowIndex1) of
                  Inl hit \<Rightarrow> Inr (Some hit)
                | Inr keyToRowIndex2 \<Rightarrow> findRepeatedRowsFrom keyToRowIndex2 rest)))"

definition findRepeatedRows :: "Row list \<Rightarrow> error + (nat \<times> nat) option" where
  "findRepeatedRows lines = findRepeatedRowsFrom Map.empty (enumerate 0 lines)"

definition findLineRepetition :: "Board \<Rightarrow> error + violation option" where
  "findLineRepetition board =
     (case findRepeatedRows (rows board) of
        Inl e \<Rightarrow> Inl e
      | Inr (Some rowViolation) \<Rightarrow> Inr (Some (LineRepetitionRows rowViolation))
      | Inr None \<Rightarrow>
          (case findRepeatedRows (columns board) of
             Inl e \<Rightarrow> Inl e
           | Inr (Some columnViolation) \<Rightarrow> Inr (Some (LineRepetitionColumns columnViolation))
           | Inr None \<Rightarrow> Inr None))"

subsection \<open>The validator\<close>

definition validateBoard :: "Board \<Rightarrow> error + violation option" where
  "validateBoard board =
     (case findThriceRepetition board of
        Some v \<Rightarrow> Inr (Some v)
      | None \<Rightarrow>
          (case findOverSaturation board of
             Inl e \<Rightarrow> Inl e
           | Inr (Some v) \<Rightarrow> Inr (Some v)
           | Inr None \<Rightarrow> findLineRepetition board))"

section \<open>Game play\<close>

text \<open>
  The type \<open>Move\<close> of the program, with fields \<open>color\<close>, \<open>row\<close> and \<open>column\<close>; the
  fields carry the prefix \<open>move\<close> here. The two indices are JavaScript numbers: the
  model takes them to be integers, of either sign.
\<close>

record Move =
  moveColor :: color
  moveRow :: int
  moveColumn :: int

text \<open>\<open>cloneBoard\<close> spreads every row into a new array; a spread reads holes as \<open>undefined\<close>.\<close>

definition cloneBoard :: "Board \<Rightarrow> Board" where
  "cloneBoard board = map (map slotValue) board"

text \<open>
  \<open>newBoard[row][column] = color\<close>. An index outside \<open>0..<newBoard.length\<close> makes
  \<open>newBoard[row]\<close> \<open>undefined\<close> and the assignment throws. A negative \<open>column\<close> sets a
  property that is no element of the row. A \<open>column\<close> past the end grows the row, unless
  it is \<open>2^32 - 1\<close> or more: such a number is no array index (no array is that long), and
  the assignment again sets a property that is no element of the row.
\<close>

definition setSquare :: "Board \<Rightarrow> Move \<Rightarrow> error + Board" where
  "setSquare newBoard m =
     (if moveRow m < 0 \<or> moveRow m \<ge> int (length newBoard) then Inl TypeError
      else if moveColumn m < 0
              \<or> (int (length (newBoard ! nat (moveRow m))) \<le> moveColumn m
                  \<and> 4294967295 \<le> moveColumn m)
      then Inr newBoard
      else Inr (newBoard[nat (moveRow m) :=
                  assign (newBoard ! nat (moveRow m)) (nat (moveColumn m)) (Val (moveColor m))]))"

definition playMove :: "Board \<Rightarrow> Move \<Rightarrow> error + (Board \<times> violation option)" where
  "playMove board m =
     (case setSquare (cloneBoard board) m of
        Inl e \<Rightarrow> Inl e
      | Inr newBoard \<Rightarrow>
          (case validateBoard newBoard of
             Inl e \<Rightarrow> Inl e
           | Inr violation \<Rightarrow> Inr (newBoard, violation)))"

datatype playMovesResult = Played Board | Stopped Board nat violation

fun playMovesFrom :: "Board \<Rightarrow> (nat \<times> Move) list \<Rightarrow> error + playMovesResult" where
  "playMovesFrom updatedBoard [] = Inr (Played updatedBoard)"
| "playMovesFrom updatedBoard ((moveIndex, m) # rest) =
     (case playMove updatedBoard m of
        Inl e \<Rightarrow> Inl e
      | Inr (newBoard, Some violation) \<Rightarrow> Inr (Stopped newBoard moveIndex violation)
      | Inr (newBoard, None) \<Rightarrow> playMovesFrom newBoard rest)"

definition playMoves :: "Board \<Rightarrow> Move list \<Rightarrow> error + playMovesResult" where
  "playMoves board ms = playMovesFrom (cloneBoard board) (enumerate 0 ms)"

section \<open>Naive completion\<close>

text \<open>
  \<open>countColors\<close> is a \<open>reduce\<close>: it skips holes, and \<open>undefined\<close> only bumps a property
  named \<open>undefined\<close> of the totals, which nothing reads.
\<close>

fun countColorsFrom :: "cell list \<Rightarrow> (color \<Rightarrow> nat) \<Rightarrow> (color \<Rightarrow> nat)" where
  "countColorsFrom [] totals = totals"
| "countColorsFrom (Hole # cs) totals = countColorsFrom cs totals"
| "countColorsFrom (Undefined # cs) totals = countColorsFrom cs totals"
| "countColorsFrom (Val c # cs) totals = countColorsFrom cs (totals(c := totals c + 1))"

definition countColors :: "Row \<Rightarrow> color \<Rightarrow> nat" where
  "countColors row = countColorsFrom row (\<lambda>_. 0)"

definition naiveAutocompleteRow :: "Row \<Rightarrow> Row" where
  "naiveAutocompleteRow row =
     (let counts = countColors row
      in if 2 * counts Red \<ge> length row
         then map (\<lambda>c. if c = Val Grey then Val Blue else c) row
         else if 2 * counts Blue \<ge> length row
         then map (\<lambda>c. if c = Val Grey then Val Red else c) row
         else map slotValue row)"

text \<open>
  One step of the column loop: \<open>row[columnIndex] = newColumn[rowIndex]\<close> in every row.
\<close>

definition writeColumn :: "Board \<Rightarrow> nat \<Rightarrow> Column \<Rightarrow> Board" where
  "writeColumn newBoard columnIndex newColumn =
     map (\<lambda>(rowIndex, row). assign row columnIndex (at newColumn rowIndex))
       (enumerate 0 newBoard)"

text \<open>
  The columns are taken once, from the board as the row pass left it, before the column
  loop writes anything back.
\<close>

definition naiveAutocompleteBoard :: "Board \<Rightarrow> Board" where
  "naiveAutocompleteBoard board =
     (let newBoard = map naiveAutocompleteRow (cloneBoard board)
      in fold (\<lambda>(columnIndex, column) nb.
                 writeColumn nb columnIndex (naiveAutocompleteRow column))
           (enumerate 0 (columns newBoard)) newBoard)"

section \<open>Solving by negation\<close>

type_synonym forcedMove = "Move \<times> violation"

text \<open>
  The body of the inner loop of \<open>findMoveByNegation\<close>: skip a square that is not empty;
  else play \<open>Red\<close> there, keep the new board only, complete it, validate it; and the same
  for \<open>Blue\<close> when that found no violation.
\<close>

definition negateSquare :: "Board \<Rightarrow> nat \<Rightarrow> nat \<times> cell \<Rightarrow> error + forcedMove option" where
  "negateSquare board rowIndex = (\<lambda>(columnIndex, color).
     if color \<noteq> Val Grey then Inr None
     else
       let redMove = \<lparr>moveColor = Red, moveRow = int rowIndex, moveColumn = int columnIndex\<rparr>;
           blueMove = \<lparr>moveColor = Blue, moveRow = int rowIndex, moveColumn = int columnIndex\<rparr>
       in case playMove board redMove of
            Inl e \<Rightarrow> Inl e
          | Inr (redBoard, _) \<Rightarrow>
              (case validateBoard (naiveAutocompleteBoard redBoard) of
                 Inl e \<Rightarrow> Inl e
               | Inr (Some redViolation) \<Rightarrow> Inr (Some (blueMove, redViolation))
               | Inr None \<Rightarrow>
                   (case playMove board blueMove of
                      Inl e \<Rightarrow> Inl e
                    | Inr (blueBoard, _) \<Rightarrow>
                        (case validateBoard (naiveAutocompleteBoard blueBoard) of
                           Inl e \<Rightarrow> Inl e
                         | Inr (Some blueViolation) \<Rightarrow> Inr (Some (redMove, blueViolation))
                         | Inr None \<Rightarrow> Inr None))))"

definition findMoveByNegation :: "Board \<Rightarrow> error + forcedMove option" where
  "findMoveByNegation board =
     firstHitE (\<lambda>(rowIndex, row). firstHitE (negateSquare board rowIndex) (entries row))
       (enumerate 0 (rows board))"

text \<open>
  The loop of \<open>trySolveByNegation\<close>; \<open>bound\<close> is \<open>board.length ** 2\<close>. The result is the
  triple \<open>(board, moves, unexpectedViolation)\<close>.
\<close>

function solveLoop ::
  "nat \<Rightarrow> Board \<Rightarrow> forcedMove list \<Rightarrow> forcedMove option \<Rightarrow> nat
   \<Rightarrow> error + (Board \<times> forcedMove list \<times> violation option)" where
  "solveLoop bound currentBoard moves nextMove moveCount =
     (case nextMove of
        None \<Rightarrow> Inr (currentBoard, moves, None)
      | Some forced \<Rightarrow>
          if moveCount < bound then
            (case playMove currentBoard (fst forced) of
               Inl e \<Rightarrow> Inl e
             | Inr (newBoard, Some violation) \<Rightarrow>
                 Inr (newBoard, moves @ [forced], Some violation)
             | Inr (newBoard, None) \<Rightarrow>
                 (case findMoveByNegation newBoard of
                    Inl e \<Rightarrow> Inl e
                  | Inr next \<Rightarrow>
                      solveLoop bound newBoard (moves @ [forced]) next (Suc moveCount)))
          else Inr (currentBoard, moves, None))"
  by pat_completeness auto
termination
  by (relation "measure (\<lambda>(bound, _, _, _, moveCount). bound - moveCount)") auto

declare solveLoop.simps [simp del]

definition trySolveByNegation ::
  "Board \<Rightarrow> error + (Board \<times> forcedMove list \<times> violation option)" where
  "trySolveByNegation board =
     (let currentBoard = cloneBoard board
      in case findMoveByNegation currentBoard of
           Inl e \<Rightarrow> Inl e
         | Inr nextMove \<Rightarrow> solveLoop ((length board)\<^sup>2) currentBoard [] nextMove 0)"

section \<open>Arrays as objects: \<open>playMove\<close> on a heap\<close>

text \<open>
  In the program a board is an array of references to row arrays, and \<open>playMove\<close>
  writes into a row array. Whether the caller's board is changed by that write depends
  on what \<open>cloneBoard\<close> copies, so this section keeps row arrays and board arrays in an
  explicit store. References are allocated in increasing order. A lookup of a reference
  that was never allocated has no counterpart in the program; it makes the operation
  \<open>None\<close>.
\<close>

type_synonym ref = nat

record heap =
  rowArrays :: "ref \<rightharpoonup> cell list"
  boardArrays :: "ref \<rightharpoonup> ref list"
  nextRef :: ref

definition newRowArray :: "heap \<Rightarrow> cell list \<Rightarrow> ref \<times> heap" where
  "newRowArray h xs =
     (nextRef h, h\<lparr>rowArrays := (rowArrays h)(nextRef h \<mapsto> xs), nextRef := Suc (nextRef h)\<rparr>)"

definition newBoardArray :: "heap \<Rightarrow> ref list \<Rightarrow> ref \<times> heap" where
  "newBoardArray h rs =
     (nextRef h, h\<lparr>boardArrays := (boardArrays h)(nextRef h \<mapsto> rs), nextRef := Suc (nextRef h)\<rparr>)"

text \<open>The contents of a board: the contents of the row arrays it refers to.\<close>

definition readBoard :: "heap \<Rightarrow> ref \<Rightarrow> Board option" where
  "readBoard h b =
     (case boardArrays h b of
        None \<Rightarrow> None
      | Some rs \<Rightarrow> those (map (rowArrays h) rs))"

text \<open>\<open>board.map((row) => [...row])\<close>: a new row array for every row, then a new board array.\<close>

fun cloneRows :: "heap \<Rightarrow> ref list \<Rightarrow> (ref list \<times> heap) option" where
  "cloneRows h [] = Some ([], h)"
| "cloneRows h (a # as) =
     (case rowArrays h a of
        None \<Rightarrow> None
      | Some xs \<Rightarrow>
          (case newRowArray h (map slotValue xs) of
             (a', h1) \<Rightarrow>
               (case cloneRows h1 as of
                  None \<Rightarrow> None
                | Some (as', h2) \<Rightarrow> Some (a' # as', h2))))"

definition cloneBoardH :: "heap \<Rightarrow> ref \<Rightarrow> (ref \<times> heap) option" where
  "cloneBoardH h b =
     (case boardArrays h b of
        None \<Rightarrow> None
      | Some rs \<Rightarrow>
          (case cloneRows h rs of
             None \<Rightarrow> None
           | Some (rs', h1) \<Rightarrow> Some (newBoardArray h1 rs')))"

text \<open>
  \<open>playMove\<close> on the store: clone, write \<open>newBoard[row][column] = color\<close> into the row
  array that \<open>newBoard[row]\<close> refers to, validate the contents of \<open>newBoard\<close>.
\<close>

definition playMoveH ::
  "heap \<Rightarrow> ref \<Rightarrow> Move \<Rightarrow> (heap \<times> (error + (ref \<times> violation option))) option" where
  "playMoveH h b m =
     (case cloneBoardH h b of
        None \<Rightarrow> None
      | Some (newBoard, h1) \<Rightarrow>
          (case boardArrays h1 newBoard of
             None \<Rightarrow> None
           | Some rs \<Rightarrow>
               if moveRow m < 0 \<or> moveRow m \<ge> int (length rs) then Some (h1, Inl TypeError)
               else
                 (case rowArrays h1 (rs ! nat (moveRow m)) of
                    None \<Rightarrow> None
                  | Some xs \<Rightarrow>
                      let h2 =
                        (if moveColumn m < 0
                            \<or> (int (length xs) \<le> moveColumn m \<and> 4294967295 \<le> moveColumn m)
                         then h1
                         else h1\<lparr>rowArrays := (rowArrays h1)
                                (rs ! nat (moveRow m) \<mapsto>
                                   assign xs (nat (moveColumn m)) (Val (moveColor m)))\<rparr>)
                      in (case readBoard h2 newBoard of
                            None \<Rightarrow> None
                          | Some contents \<Rightarrow>
                              (case validateBoard contents of
                                 Inl e \<Rightarrow> Some (h2, Inl e)
                               | Inr violation \<Rightarrow> Some (h2, Inr (newBoard, violation)))))))"

text \<open>Nothing is stored at or above the next free reference.\<close>

definition heapOk :: "heap \<Rightarrow> bool" where
  "heapOk h \<longleftrightarrow> (\<forall>a \<ge> nextRef h. rowArrays h a = None \<and> boardArrays h a = None)"

section \<open>Boards as the program receives them\<close>

text \<open>A dense board of colours, as \<open>makeRow\<close> builds it.\<close>

definition boardOf :: "color list list \<Rightarrow> Board" where
  "boardOf g = map (map Val) g"

definition square :: "color list list \<Rightarrow> bool" where
  "square g = list_all (\<lambda>r. length r = length g) g"

text \<open>No row is shorter than the number of rows (so every column the program builds exists).\<close>

definition wide :: "color list list \<Rightarrow> bool" where
  "wide g = list_all (\<lambda>r. length g \<le> length r) g"

section \<open>Specification vocabulary\<close>

text \<open>The ordered list of the positions a colour occupies in a line.\<close>

definition positionsOf :: "color \<Rightarrow> color list \<Rightarrow> nat list" where
  "positionsOf c line = filter (\<lambda>i. line ! i = c) [0..<length line]"

text \<open>Every empty square of a row replaced by one colour.\<close>

definition fillEmpty :: "color \<Rightarrow> color list \<Rightarrow> color list" where
  "fillEmpty c row = map (\<lambda>x. if x = Grey then c else x) row"

text \<open>
  Row completion as the specification words it: a colour holding at least half of the
  row fills the empty squares with the other colour, the first colour being tested first.
\<close>

definition completeRow :: "color list \<Rightarrow> color list" where
  "completeRow row =
     (if 2 * count_list row Red \<ge> length row then fillEmpty Blue row
      else if 2 * count_list row Blue \<ge> length row then fillEmpty Red row
      else row)"

text \<open>
  The column loop of \<open>naiveAutocompleteBoard\<close>, started at column index \<open>k\<close> with the
  columns still to be written.
\<close>

definition columnLoop :: "nat \<Rightarrow> Column list \<Rightarrow> Board \<Rightarrow> Board" where
  "columnLoop k cols nb =
     fold (\<lambda>(columnIndex, column) nb. writeColumn nb columnIndex (naiveAutocompleteRow column))
       (enumerate k cols) nb"

text \<open>
  The columns of a grid of colours: column \<open>j\<close> is the \<open>j\<close>-th square of every row, in
  row order, for \<open>j\<close> below the side length.
\<close>

definition columnsOf :: "color list list \<Rightarrow> color list list" where
  "columnsOf g = map (\<lambda>j. map (\<lambda>row. row ! j) g) [0..<length g]"

text \<open>The colour a slot holds (used on slots that hold one).\<close>

definition colorOfCell :: "cell \<Rightarrow> color" where
  "colorOfCell x = (case x of Val c \<Rightarrow> c | _ \<Rightarrow> Grey)"

text \<open>A move that names a square of the grid.\<close>

definition inBounds :: "color list list \<Rightarrow> Move \<Rightarrow> bool" where
  "inBounds g m \<longleftrightarrow>
     0 \<le> moveRow m \<and> moveRow m < int (length g)
     \<and> 0 \<le> moveColumn m \<and> moveColumn m < int (length (g ! nat (moveRow m)))"

text \<open>The grid with the targeted square set to the colour of the move, all else equal.\<close>

definition played :: "color list list \<Rightarrow> Move \<Rightarrow> color list list" where
  "played g m =
     g[nat (moveRow m) := (g ! nat (moveRow m))[nat (moveColumn m) := moveColor m]]"

text \<open>
  Three consecutive squares of a line, starting at position \<open>i\<close>, hold the same active
  colour.
\<close>

definition tripleAt :: "color list \<Rightarrow> nat \<Rightarrow> bool" where
  "tripleAt line i \<longleftrightarrow>
     i + 2 < length line \<and> line ! i \<noteq> Grey
     \<and> line ! i = line ! (i + 1) \<and> line ! i = line ! (i + 2)"

text \<open>The line contains three consecutive squares of the same active colour.\<close>

definition hasTriple :: "color list \<Rightarrow> bool" where
  "hasTriple line \<longleftrightarrow> (\<exists>i \<in> set [0..<length line]. tripleAt line i)"

text \<open>The start of the leftmost such triple of a line.\<close>

definition firstTriple :: "color list \<Rightarrow> nat option" where
  "firstTriple line = find (tripleAt line) [0..<length line]"

text \<open>The earliest line with a triple, and the start of its leftmost triple.\<close>

definition firstTripleLine :: "color list list \<Rightarrow> (nat \<times> nat) option" where
  "firstTripleLine ls =
     (case find (\<lambda>r. hasTriple (ls ! r)) [0..<length ls] of
        None \<Rightarrow> None
      | Some r \<Rightarrow> map_option (Pair r) (firstTriple (ls ! r)))"

text \<open>The empty squares of a grid in row-major order.\<close>

definition emptySquares :: "color list list \<Rightarrow> (nat \<times> nat) list" where
  "emptySquares g =
     [(r, c). r \<leftarrow> [0..<length g], c \<leftarrow> [0..<length (g ! r)], g ! r ! c = Grey]"

text \<open>The two candidate moves at a square.\<close>

definition redAt :: "nat \<times> nat \<Rightarrow> Move" where
  "redAt = (\<lambda>(r, c). \<lparr>moveColor = Red, moveRow = int r, moveColumn = int c\<rparr>)"

definition blueAt :: "nat \<times> nat \<Rightarrow> Move" where
  "blueAt = (\<lambda>(r, c). \<lparr>moveColor = Blue, moveRow = int r, moveColumn = int c\<rparr>)"

text \<open>
  The probe of a candidate move on a grid, as the specification words it: apply the move
  (the grid with that square set), which validates the new grid and keeps nothing of the
  result; then complete the new grid naively and validate the completion.
\<close>

abbreviation probe :: "color list list \<Rightarrow> Move \<Rightarrow> error + violation option" where
  "probe g m \<equiv>
     (case validateBoard (boardOf (played g m)) of
        Inl e \<Rightarrow> Inl e
      | Inr ignored \<Rightarrow> validateBoard (naiveAutocompleteBoard (boardOf (played g m))))"

text \<open>
  The decision at one empty square, as the specification words it: a violation found by
  the probe of the first colour forces the second colour; otherwise a violation found by
  the probe of the second colour forces the first; otherwise there is no decision.
\<close>

definition decide :: "color list list \<Rightarrow> nat \<times> nat \<Rightarrow> error + forcedMove option" where
  "decide g p =
     (case probe g (redAt p) of
        Inl e \<Rightarrow> Inl e
      | Inr (Some v) \<Rightarrow> Inr (Some (blueAt p, v))
      | Inr None \<Rightarrow>
          (case probe g (blueAt p) of
             Inl e \<Rightarrow> Inl e
           | Inr (Some v) \<Rightarrow> Inr (Some (redAt p, v))
           | Inr None \<Rightarrow> Inr None))"

text \<open>
  Every recorded move was the answer of the move finder on the board reached by the moves
  recorded before it (none of which produced a violation).
\<close>

definition answered :: "Board \<Rightarrow> forcedMove list \<Rightarrow> bool" where
  "answered board ms =
     list_all
       (\<lambda>i. case playMoves board (map fst (take i ms)) of
              Inr (Played cur) \<Rightarrow> findMoveByNegation cur = Inr (Some (ms ! i))
            | _ \<Rightarrow> False)
       [0..<length ms]"

section \<open>Line repetition: the line at index 0\<close>

lemma lookupOrStore_hit:
  "lookupOrStore m key index = Inl (i, j) \<Longrightarrow> i \<noteq> 0 \<and> j = index"
  by (auto simp: lookupOrStore_def split: option.splits if_splits)

lemma findRepeatedRowsFrom_first_index:
  "findRepeatedRowsFrom m ls = Inr (Some (i, j)) \<Longrightarrow> i \<noteq> 0"
proof (induction ls arbitrary: m)
  case Nil
  then show ?case by simp
next
  case (Cons l ls)
  obtain index row where l: "l = (index, row)" by (cases l)
  from Cons.prems show ?case
    unfolding l
    by (auto split: sum.splits if_splits dest: lookupOrStore_hit Cons.IH)
qed

lemma findRepeatedRows_first_index:
  "findRepeatedRows ls = Inr (Some (i, j)) \<Longrightarrow> i \<noteq> 0"
  unfolding findRepeatedRows_def by (rule findRepeatedRowsFrom_first_index)

text \<open>
  C1. The claim says that a line repeating, for one active colour, the position list of
  an earlier line that qualified is reported with that earlier line, and that two rows
  \<open>rbrb\<close> at indices 0 and 1 give a line repetition pairing 0 and 1. The program tests
  the stored index for truthiness, so a line stored under index 0 is never found again
  (\<open>findRepeatedRows_first_index\<close>): on the rows \<open>rbrb\<close>, \<open>rbrb\<close> it returns \<open>null\<close>, and
  on a 4 by 4 board with these two rows first it reports two columns instead.
\<close>

theorem findRepeatedRows_ignores_line_zero:
  "findRepeatedRows (boardOf [[Red, Blue, Red, Blue], [Red, Blue, Red, Blue]]) = Inr None
   \<and> findLineRepetition (boardOf [[Red, Blue, Red, Blue], [Red, Blue, Red, Blue],
                                  [Grey, Grey, Grey, Grey], [Grey, Grey, Grey, Grey]])
       = Inr (Some (LineRepetitionColumns (1, 3)))"
  by code_simp

section \<open>The validator's precedence\<close>

text \<open>
  C2. \<open>validateBoard\<close> returns no violation exactly when each of the three checkers
  returns none on the same board; and a violation it returns is the thrice-repetition
  checker's when that one fires, else the over-saturation checker's when that one fires,
  else the line-repetition checker's.
\<close>

theorem validateBoard_precedence:
  "(validateBoard board = Inr None \<longleftrightarrow>
      findThriceRepetition board = None \<and> findOverSaturation board = Inr None
      \<and> findLineRepetition board = Inr None)
   \<and> (\<forall>t. findThriceRepetition board = Some t \<longrightarrow> validateBoard board = Inr (Some t))
   \<and> (\<forall>s. findThriceRepetition board = None \<and> findOverSaturation board = Inr (Some s)
          \<longrightarrow> validateBoard board = Inr (Some s))
   \<and> (findThriceRepetition board = None \<and> findOverSaturation board = Inr None
          \<longrightarrow> validateBoard board = findLineRepetition board)
   \<and> (\<forall>v. validateBoard board = Inr (Some v) \<longrightarrow>
          findThriceRepetition board = Some v
          \<or> findThriceRepetition board = None \<and> findOverSaturation board = Inr (Some v)
          \<or> findThriceRepetition board = None \<and> findOverSaturation board = Inr None
             \<and> findLineRepetition board = Inr (Some v))"
  by (auto simp: validateBoard_def split: option.splits sum.splits)

theorem validateBoard_precedence_witness:
  "validateBoard (boardOf [[Red, Blue], [Blue, Red]]) = Inr None
   \<and> validateBoard (boardOf [[Red, Red, Red], [Grey, Grey, Grey], [Grey, Grey, Grey]])
       = Inr (Some (ThriceRepetitionRow 0 (0, 1, 2) (Val Red)))
   \<and> validateBoard (boardOf [[Red, Red, Blue], [Grey, Grey, Grey], [Grey, Grey, Grey]])
       = Inr (Some (OverSaturationRow 0 [0, 1] Red))
   \<and> validateBoard (boardOf [[Grey, Grey, Grey, Grey], [Red, Blue, Red, Blue],
                             [Red, Blue, Red, Blue], [Grey, Grey, Grey, Grey]])
       = Inr (Some (LineRepetitionRows (1, 2)))"
proof -
  let ?a = "boardOf [[Red, Blue], [Blue, Red]]"
  let ?b = "boardOf [[Red, Red, Red], [Grey, Grey, Grey], [Grey, Grey, Grey]]"
  let ?c = "boardOf [[Red, Red, Blue], [Grey, Grey, Grey], [Grey, Grey, Grey]]"
  let ?d = "boardOf [[Grey, Grey, Grey, Grey], [Red, Blue, Red, Blue],
                     [Red, Blue, Red, Blue], [Grey, Grey, Grey, Grey]]"
  have "findThriceRepetition ?a = None \<and> findOverSaturation ?a = Inr None
        \<and> findLineRepetition ?a = Inr None"
    by code_simp
  then have a: "validateBoard ?a = Inr None"
    using validateBoard_precedence [of ?a] by blast
  have "findThriceRepetition ?b = Some (ThriceRepetitionRow 0 (0, 1, 2) (Val Red))"
    by code_simp
  then have b: "validateBoard ?b = Inr (Some (ThriceRepetitionRow 0 (0, 1, 2) (Val Red)))"
    using validateBoard_precedence [of ?b] by blast
  have "findThriceRepetition ?c = None
        \<and> findOverSaturation ?c = Inr (Some (OverSaturationRow 0 [0, 1] Red))"
    by code_simp
  then have c: "validateBoard ?c = Inr (Some (OverSaturationRow 0 [0, 1] Red))"
    using validateBoard_precedence [of ?c] by blast
  have "findThriceRepetition ?d = None \<and> findOverSaturation ?d = Inr None
        \<and> findLineRepetition ?d = Inr (Some (LineRepetitionRows (1, 2)))"
    by code_simp
  then have d: "validateBoard ?d = Inr (Some (LineRepetitionRows (1, 2)))"
    using validateBoard_precedence [of ?d] by metis
  from a b c d show ?thesis by blast
qed

section \<open>Position vectors and counts of a line of colours\<close>

lemma positionsOf_Nil [simp]: "positionsOf c [] = []"
  by (simp add: positionsOf_def)

lemma positionsOf_Cons:
  "positionsOf c (x # xs) = (if x = c then [0] else []) @ map Suc (positionsOf c xs)"
proof -
  have "[0..<length (x # xs)] = 0 # map Suc [0..<length xs]"
    by (simp add: upt_conv_Cons map_Suc_upt del: upt_Suc)
  then show ?thesis
    by (simp add: positionsOf_def filter_map comp_def del: upt_Suc)
qed

lemma length_positionsOf: "length (positionsOf c line) = count_list line c"
  by (induction line) (simp_all add: positionsOf_Cons)

lemma positionVectorsFrom_Val:
  "positionVectorsFrom k (map Val line) acc
     = Inr (\<lambda>c. acc c @ map (\<lambda>i. k + i) (positionsOf c line))"
proof (induction line arbitrary: k acc)
  case Nil
  then show ?case by simp
next
  case (Cons x xs)
  show ?case
    by (simp add: Cons.IH positionsOf_Cons fun_eq_iff comp_def)
qed

lemma positionVectors_Val: "positionVectors (map Val line) = Inr (\<lambda>c. positionsOf c line)"
  by (simp add: positionVectors_def positionVectorsFrom_Val)

lemma count_two_colors: "count_list line Red + count_list line Blue \<le> length line"
  by (induction line) auto

lemma findOverSaturationRow_Val:
  "findOverSaturationRow (map Val line) =
     (if 2 * count_list line Red > length line then Inr (Some (positionsOf Red line, Red))
      else if 2 * count_list line Blue > length line then Inr (Some (positionsOf Blue line, Blue))
      else Inr None)"
  by (simp add: findOverSaturationRow_def positionVectors_Val length_positionsOf)

section \<open>Over-saturation of a line\<close>

text \<open>
  C4. On every line of colours, \<open>findOverSaturationRow\<close> reports an active colour \<open>c\<close>
  exactly when twice the count of \<open>c\<close> is strictly greater than the length of the line,
  and the evidence is then the ordered list of all positions of \<open>c\<close>. A line with equal
  counts of both active colours and no empty square is not reported. \<open>Red\<close> is tested
  first: a red strict majority is the one reported. The checker does not throw on such
  a line.
\<close>

theorem findOverSaturationRow_strict_majority:
  "(findOverSaturationRow (map Val line) = Inr (Some (pv, c)) \<longleftrightarrow>
      c \<noteq> Grey \<and> 2 * count_list line c > length line \<and> pv = positionsOf c line)
   \<and> (count_list line Red = count_list line Blue \<and> Grey \<notin> set line \<longrightarrow>
        findOverSaturationRow (map Val line) = Inr None)
   \<and> (2 * count_list line Red > length line \<longrightarrow>
        findOverSaturationRow (map Val line) = Inr (Some (positionsOf Red line, Red)))
   \<and> (\<exists>r. findOverSaturationRow (map Val line) = Inr r)"
proof -
  have two: "count_list line Red + count_list line Blue \<le> length line"
    by (rule count_two_colors)
  show ?thesis
    using two by (cases c) (auto simp: findOverSaturationRow_Val)
qed

theorem findOverSaturationRow_strict_majority_witness:
  "findOverSaturationRow (map Val [Red, Red, Blue]) = Inr (Some ([0, 1], Red))
   \<and> findOverSaturationRow (map Val [Red, Blue, Blue, Red]) = Inr None"
proof -
  have "Red \<noteq> Grey \<and> 2 * count_list [Red, Red, Blue] Red > length [Red, Red, Blue]
        \<and> [0, 1] = positionsOf Red [Red, Red, Blue]"
    by (simp add: positionsOf_def)
  then have a: "findOverSaturationRow (map Val [Red, Red, Blue]) = Inr (Some ([0, 1], Red))"
    using findOverSaturationRow_strict_majority [of "[Red, Red, Blue]" "[0, 1]" Red] by blast
  have "count_list [Red, Blue, Blue, Red] Red = count_list [Red, Blue, Blue, Red] Blue
        \<and> Grey \<notin> set [Red, Blue, Blue, Red]"
    by simp
  then have b: "findOverSaturationRow (map Val [Red, Blue, Blue, Red]) = Inr None"
    using findOverSaturationRow_strict_majority [of "[Red, Blue, Blue, Red]" "[]" Red] by blast
  from a b show ?thesis by blast
qed

section \<open>Completion of a row\<close>

lemma countColorsFrom_Val:
  "countColorsFrom (map Val row) totals = (\<lambda>c. totals c + count_list row c)"
  by (induction row arbitrary: totals) (auto simp: fun_eq_iff)

lemma countColors_Val: "countColors (map Val row) = count_list row"
  by (simp add: countColors_def countColorsFrom_Val fun_eq_iff)

lemma map_slotValue_Val [simp]: "map slotValue (map Val row) = map Val row"
  by (induction row) auto

lemma naiveAutocompleteRow_Val: "naiveAutocompleteRow (map Val row) = map Val (completeRow row)"
  by (auto simp: naiveAutocompleteRow_def countColors_Val completeRow_def fillEmpty_def Let_def)

lemma fillEmpty_no_Grey: "Grey \<notin> set row \<Longrightarrow> fillEmpty c row = row"
  by (induction row) (auto simp: fillEmpty_def)

text \<open>
  C6. On every row of colours, \<open>naiveAutocompleteRow\<close> replaces every empty square by
  \<open>Blue\<close> when \<open>Red\<close> holds at least half of the row (whatever \<open>Blue\<close> holds), by \<open>Red\<close>
  when \<open>Red\<close> does not and \<open>Blue\<close> holds at least half, and returns an equal row
  otherwise; on a row without empty squares the result equals the input.
\<close>

theorem naiveAutocompleteRow_fills:
  "(2 * count_list row Red \<ge> length row \<longrightarrow>
      naiveAutocompleteRow (map Val row) = map Val (fillEmpty Blue row))
   \<and> (2 * count_list row Red < length row \<and> 2 * count_list row Blue \<ge> length row \<longrightarrow>
      naiveAutocompleteRow (map Val row) = map Val (fillEmpty Red row))
   \<and> (2 * count_list row Red < length row \<and> 2 * count_list row Blue < length row \<longrightarrow>
      naiveAutocompleteRow (map Val row) = map Val row)
   \<and> (Grey \<notin> set row \<longrightarrow> naiveAutocompleteRow (map Val row) = map Val row)"
  by (auto simp: naiveAutocompleteRow_Val completeRow_def fillEmpty_no_Grey)

theorem naiveAutocompleteRow_fills_witness:
  "naiveAutocompleteRow (map Val [Red, Grey]) = map Val [Red, Blue]
   \<and> naiveAutocompleteRow (map Val [Grey, Blue, Blue, Red]) = map Val [Red, Blue, Blue, Red]
   \<and> naiveAutocompleteRow (map Val [Grey, Grey, Red]) = map Val [Grey, Grey, Red]
   \<and> naiveAutocompleteRow (map Val [Red, Red, Red]) = map Val [Red, Red, Red]"
proof -
  have "2 * count_list [Red, Grey] Red \<ge> length [Red, Grey]"
    by simp
  then have a: "naiveAutocompleteRow (map Val [Red, Grey]) = map Val (fillEmpty Blue [Red, Grey])"
    using naiveAutocompleteRow_fills [of "[Red, Grey]"] by blast
  have "2 * count_list [Grey, Blue, Blue, Red] Red < length [Grey, Blue, Blue, Red]
        \<and> 2 * count_list [Grey, Blue, Blue, Red] Blue \<ge> length [Grey, Blue, Blue, Red]"
    by simp
  then have b: "naiveAutocompleteRow (map Val [Grey, Blue, Blue, Red])
                  = map Val (fillEmpty Red [Grey, Blue, Blue, Red])"
    using naiveAutocompleteRow_fills [of "[Grey, Blue, Blue, Red]"] by blast
  have "2 * count_list [Grey, Grey, Red] Red < length [Grey, Grey, Red]
        \<and> 2 * count_list [Grey, Grey, Red] Blue < length [Grey, Grey, Red]"
    by simp
  then have c: "naiveAutocompleteRow (map Val [Grey, Grey, Red]) = map Val [Grey, Grey, Red]"
    using naiveAutocompleteRow_fills [of "[Grey, Grey, Red]"] by blast
  have "Grey \<notin> set [Red, Red, Red]"
    by simp
  then have d: "naiveAutocompleteRow (map Val [Red, Red, Red]) = map Val [Red, Red, Red]"
    using naiveAutocompleteRow_fills [of "[Red, Red, Red]"] by blast
  from a b c d show ?thesis by (simp add: fillEmpty_def)
qed

section \<open>Naive completion keeps the squares already played\<close>

lemma length_naiveAutocompleteRow [simp]: "length (naiveAutocompleteRow xs) = length xs"
  by (simp add: naiveAutocompleteRow_def Let_def)

lemma naiveAutocompleteRow_nth_active:
  "i < length xs \<Longrightarrow> xs ! i = Val c \<Longrightarrow> c \<noteq> Grey \<Longrightarrow> naiveAutocompleteRow xs ! i = Val c"
  by (simp add: naiveAutocompleteRow_def Let_def)

lemma naiveAutocompleteRow_nth_Val:
  "i < length xs \<Longrightarrow> xs ! i = Val c \<Longrightarrow> \<exists>c'. naiveAutocompleteRow xs ! i = Val c'"
  by (simp add: naiveAutocompleteRow_def Let_def)

lemma length_assign: "length (assign xs i v) = max (length xs) (Suc i)"
  by (auto simp: assign_def)

lemma nth_assign: "c < length xs \<Longrightarrow> assign xs i v ! c = (if c = i then v else xs ! c)"
  by (auto simp: assign_def nth_append)

lemma length_writeColumn [simp]: "length (writeColumn nb j col) = length nb"
  by (simp add: writeColumn_def)

lemma nth_writeColumn:
  "r < length nb \<Longrightarrow> writeColumn nb j col ! r = assign (nb ! r) j (at col r)"
  by (simp add: writeColumn_def nth_enumerate_eq)

lemma columnLoop_Nil [simp]: "columnLoop k [] nb = nb"
  by (simp add: columnLoop_def)

lemma columnLoop_Cons [simp]:
  "columnLoop k (col # cols) nb
     = columnLoop (Suc k) cols (writeColumn nb k (naiveAutocompleteRow col))"
  by (simp add: columnLoop_def)

lemma length_columnLoop [simp]: "length (columnLoop k cols nb) = length nb"
  by (induction cols arbitrary: k nb) auto

lemma columnLoop_nth:
  "r < length nb \<Longrightarrow> c < length (nb ! r) \<Longrightarrow>
   c < length (columnLoop k cols nb ! r)
   \<and> columnLoop k cols nb ! r ! c
       = (if k \<le> c \<and> c < k + length cols then at (naiveAutocompleteRow (cols ! (c - k))) r
          else nb ! r ! c)"
proof (induction cols arbitrary: k nb)
  case Nil
  then show ?case by auto
next
  case (Cons col cols)
  let ?nb = "writeColumn nb k (naiveAutocompleteRow col)"
  have r: "r < length ?nb" using Cons.prems by simp
  have row: "?nb ! r = assign (nb ! r) k (at (naiveAutocompleteRow col) r)"
    using Cons.prems by (simp add: nth_writeColumn)
  have c: "c < length (?nb ! r)"
    using Cons.prems by (simp add: row length_assign)
  have cell: "?nb ! r ! c = (if c = k then at (naiveAutocompleteRow col) r else nb ! r ! c)"
    using Cons.prems by (simp add: row nth_assign)
  from Cons.IH [OF r c, of "Suc k"]
  have IH: "c < length (columnLoop (Suc k) cols ?nb ! r)"
    "columnLoop (Suc k) cols ?nb ! r ! c
       = (if Suc k \<le> c \<and> c < Suc k + length cols
          then at (naiveAutocompleteRow (cols ! (c - Suc k))) r else ?nb ! r ! c)"
    by blast+
  consider "c < k" | "c = k" | "k < c" by linarith
  then show ?case
  proof cases
    case 1
    then show ?thesis using IH cell by simp
  next
    case 2
    then show ?thesis using IH cell by simp
  next
    case 3
    then have "(col # cols) ! (c - k) = cols ! (c - Suc k)"
      by (simp add: nth_Cons')
    then show ?thesis using IH cell 3 by auto
  qed
qed

lemma naiveAutocompleteBoard_columnLoop:
  "naiveAutocompleteBoard board =
     (let newBoard = map naiveAutocompleteRow (cloneBoard board)
      in columnLoop 0 (columns newBoard) newBoard)"
  by (simp add: naiveAutocompleteBoard_def columnLoop_def)

lemma cloneBoard_boardOf [simp]: "cloneBoard (boardOf g) = boardOf g"
  by (simp add: cloneBoard_def boardOf_def comp_def)

lemma rowPass_boardOf:
  "map naiveAutocompleteRow (boardOf g) = boardOf (map completeRow g)"
  by (simp add: boardOf_def naiveAutocompleteRow_Val)

lemma length_completeRow [simp]: "length (completeRow row) = length row"
  by (simp add: completeRow_def fillEmpty_def)

lemma completeRow_nth_active:
  "i < length row \<Longrightarrow> row ! i \<noteq> Grey \<Longrightarrow> completeRow row ! i = row ! i"
  by (simp add: completeRow_def fillEmpty_def)

lemma length_columns [simp]: "length (columns board) = length board"
  by (simp add: columns_def)

lemma nth_columns:
  "c < length board \<Longrightarrow> columns board ! c = map (\<lambda>row. at row c) board"
  by (simp add: columns_def)

lemma at_Val: "i < length xs \<Longrightarrow> xs ! i = Val c \<Longrightarrow> at xs i = Val c"
  by (simp add: at_def)

lemma length_boardOf [simp]: "length (boardOf g) = length g"
  by (simp add: boardOf_def)

lemma nth_boardOf [simp]: "r < length g \<Longrightarrow> boardOf g ! r = map Val (g ! r)"
  by (simp add: boardOf_def)

lemma naiveAutocompleteBoard_cell:
  assumes r: "r < length g" and c: "c < length (g ! r)"
  shows "c < length (naiveAutocompleteBoard (boardOf g) ! r)
         \<and> (\<exists>x. naiveAutocompleteBoard (boardOf g) ! r ! c = Val x
                \<and> (g ! r ! c \<noteq> Grey \<longrightarrow> x = g ! r ! c))"
proof -
  let ?g1 = "map completeRow g"
  let ?nb = "boardOf ?g1"
  have out: "naiveAutocompleteBoard (boardOf g) = columnLoop 0 (columns ?nb) ?nb"
    by (simp add: naiveAutocompleteBoard_columnLoop rowPass_boardOf Let_def)
  have r': "r < length ?nb" using r by simp
  have nbr: "?nb ! r = map Val (completeRow (g ! r))"
    using r by simp
  have c': "c < length (?nb ! r)" using c by (simp add: nbr)
  have cell0: "?nb ! r ! c = Val (completeRow (g ! r) ! c)"
    using c by (simp add: nbr)
  note loop = columnLoop_nth [OF r' c', of 0 "columns ?nb"]
  show ?thesis
  proof (cases "c < length g")
    case False
    then have "naiveAutocompleteBoard (boardOf g) ! r ! c = Val (completeRow (g ! r) ! c)"
      using loop by (simp add: out cell0)
    then show ?thesis
      using loop c by (auto simp: out completeRow_nth_active)
  next
    case True
    let ?col = "columns ?nb ! c"
    have col: "?col = map (\<lambda>row. at row c) ?nb"
      using True by (simp add: nth_columns)
    have lcol: "r < length ?col" using r by (simp add: col)
    have colr: "?col ! r = Val (completeRow (g ! r) ! c)"
      using r c by (simp add: col at_def)
    have res: "naiveAutocompleteBoard (boardOf g) ! r ! c = at (naiveAutocompleteRow ?col) r"
      using loop True by (simp add: out)
    obtain x where x: "naiveAutocompleteRow ?col ! r = Val x"
      using naiveAutocompleteRow_nth_Val [OF lcol colr] by blast
    have atx: "at (naiveAutocompleteRow ?col) r = Val x"
      using lcol by (simp add: at_Val x)
    have "g ! r ! c \<noteq> Grey \<Longrightarrow> x = g ! r ! c"
    proof -
      assume a: "g ! r ! c \<noteq> Grey"
      then have "completeRow (g ! r) ! c = g ! r ! c"
        using c by (simp add: completeRow_nth_active)
      with colr a have "naiveAutocompleteRow ?col ! r = Val (g ! r ! c)"
        using naiveAutocompleteRow_nth_active [OF lcol, of "g ! r ! c"] by simp
      with x show ?thesis by simp
    qed
    then show ?thesis
      using loop True by (simp add: out res atx)
  qed
qed


lemma length_columnLoop_row:
  "r < length nb \<Longrightarrow>
   length (columnLoop k cols nb ! r)
     = (if cols = [] then length (nb ! r) else max (length (nb ! r)) (k + length cols))"
proof (induction cols arbitrary: k nb)
  case Nil
  then show ?case by simp
next
  case (Cons col cols)
  let ?nb = "writeColumn nb k (naiveAutocompleteRow col)"
  have r: "r < length ?nb" using Cons.prems by simp
  have row: "length (?nb ! r) = max (length (nb ! r)) (Suc k)"
    using Cons.prems by (simp add: nth_writeColumn length_assign)
  show ?case
    using Cons.IH [OF r, of "Suc k"] by (auto simp: row)
qed

lemma assign_end: "assign xs (length xs) v = xs @ [v]"
  by (simp add: assign_def)

lemma naiveAutocompleteRow_nth_Undefined:
  "i < length xs \<Longrightarrow> xs ! i = Undefined \<Longrightarrow> naiveAutocompleteRow xs ! i = Undefined"
  by (simp add: naiveAutocompleteRow_def Let_def)

lemma columnLoop_pad:
  "r < length nb \<Longrightarrow> k \<le> length (nb ! r) \<Longrightarrow> length (nb ! r) \<le> c \<Longrightarrow>
   c < k + length cols \<Longrightarrow>
   columnLoop k cols nb ! r ! c = at (naiveAutocompleteRow (cols ! (c - k))) r"
proof (induction cols arbitrary: k nb)
  case Nil
  then show ?case by simp
next
  case (Cons col cols)
  let ?v = "at (naiveAutocompleteRow col) r"
  let ?nb = "writeColumn nb k (naiveAutocompleteRow col)"
  have r: "r < length ?nb" using Cons.prems by simp
  have row: "?nb ! r = assign (nb ! r) k ?v"
    using Cons.prems by (simp add: nth_writeColumn)
  have len: "length (?nb ! r) = max (length (nb ! r)) (Suc k)"
    by (simp add: row length_assign)
  show ?case
  proof (cases "c = k")
    case True
    then have k: "k = length (nb ! r)" using Cons.prems by simp
    have "?nb ! r = nb ! r @ [?v]" by (subst row, subst k, rule assign_end)
    then have cell: "c < length (?nb ! r)" "?nb ! r ! c = ?v"
      using True k by simp_all
    from columnLoop_nth [OF r cell(1), of "Suc k" cols] show ?thesis
      using True cell(2) by simp
  next
    case False
    then have ck: "k < c" using Cons.prems by simp
    have "(col # cols) ! (c - k) = cols ! (c - Suc k)"
      using ck by (simp add: nth_Cons')
    moreover have "columnLoop (Suc k) cols ?nb ! r ! c
                     = at (naiveAutocompleteRow (cols ! (c - Suc k))) r"
      using Cons.prems ck by (intro Cons.IH [OF r]) (simp_all add: len)
    ultimately show ?thesis by simp
  qed
qed

lemma naiveAutocompleteBoard_shape:
  assumes r: "r < length g"
  shows "length (naiveAutocompleteBoard (boardOf g) ! r) = max (length (g ! r)) (length g)"
    and "length (g ! r) \<le> c \<Longrightarrow> c < length g \<Longrightarrow>
         naiveAutocompleteBoard (boardOf g) ! r ! c = Undefined"
proof -
  let ?nb = "boardOf (map completeRow g)"
  have out: "naiveAutocompleteBoard (boardOf g) = columnLoop 0 (columns ?nb) ?nb"
    by (simp add: naiveAutocompleteBoard_columnLoop rowPass_boardOf Let_def)
  have r': "r < length ?nb" using r by simp
  have nbr: "length (?nb ! r) = length (g ! r)" using r by simp
  have ne: "columns ?nb \<noteq> []" using r by (auto simp: columns_def)
  show "length (naiveAutocompleteBoard (boardOf g) ! r) = max (length (g ! r)) (length g)"
    using length_columnLoop_row [OF r', of 0 "columns ?nb"] ne by (simp add: out nbr)
  assume c: "length (g ! r) \<le> c" "c < length g"
  let ?col = "columns ?nb ! c"
  have col: "?col = map (\<lambda>row. at row c) ?nb"
    using c by (simp add: nth_columns)
  have lcol: "r < length ?col" using r by (simp add: col)
  have "?col ! r = Undefined"
    using r c by (simp add: col at_def)
  then have "at (naiveAutocompleteRow ?col) r = Undefined"
    using lcol by (simp add: at_def naiveAutocompleteRow_nth_Undefined)
  moreover have "columnLoop 0 (columns ?nb) ?nb ! r ! c = at (naiveAutocompleteRow ?col) r"
    using columnLoop_pad [OF r', of 0 c "columns ?nb"] c by (simp add: nbr)
  ultimately show "naiveAutocompleteBoard (boardOf g) ! r ! c = Undefined"
    by (simp add: out)
qed

lemma color_cases3: "x \<noteq> Grey \<Longrightarrow> x = Red \<or> x = Blue"
  by (cases x) auto

text \<open>
  C10 (as amended). Naive completion never changes a square that holds an active colour.
  For a row, and for a board of colours of any shape: a square of the input that is not
  empty holds the same colour in the output, and a square of the input whose content
  differs in the output was empty and holds \<open>Red\<close> or \<open>Blue\<close> afterwards. A completed row
  has the length of the row. A completed board has the rows of the board, each as long
  as before when it is at least as long as the number of rows (so the shape is kept on
  every square grid); a shorter row is padded with \<open>undefined\<close> up to the number of rows.
\<close>

theorem naive_completion_keeps_active_cells:
  "(\<forall>i < length row.
      (row ! i \<noteq> Grey \<longrightarrow> naiveAutocompleteRow (map Val row) ! i = Val (row ! i))
      \<and> (naiveAutocompleteRow (map Val row) ! i \<noteq> Val (row ! i) \<longrightarrow>
           row ! i = Grey \<and> naiveAutocompleteRow (map Val row) ! i \<in> {Val Red, Val Blue}))
   \<and> length (naiveAutocompleteRow (map Val row)) = length row
   \<and> (\<forall>r < length g. \<forall>c < length (g ! r).
        c < length (naiveAutocompleteBoard (boardOf g) ! r)
        \<and> (g ! r ! c \<noteq> Grey \<longrightarrow> naiveAutocompleteBoard (boardOf g) ! r ! c = Val (g ! r ! c))
        \<and> (naiveAutocompleteBoard (boardOf g) ! r ! c \<noteq> Val (g ! r ! c) \<longrightarrow>
             g ! r ! c = Grey
             \<and> naiveAutocompleteBoard (boardOf g) ! r ! c \<in> {Val Red, Val Blue}))
   \<and> length (naiveAutocompleteBoard (boardOf g)) = length g
   \<and> (\<forall>r < length g.
        length (naiveAutocompleteBoard (boardOf g) ! r) = max (length (g ! r)) (length g)
        \<and> (length g \<le> length (g ! r) \<longrightarrow>
             length (naiveAutocompleteBoard (boardOf g) ! r) = length (g ! r))
        \<and> (\<forall>c. length (g ! r) \<le> c \<and> c < length g \<longrightarrow>
             naiveAutocompleteBoard (boardOf g) ! r ! c = Undefined))"
proof (intro conjI allI impI)
  fix i assume i: "i < length row"
  have out: "naiveAutocompleteRow (map Val row) ! i = Val (completeRow row ! i)"
    using i by (simp add: naiveAutocompleteRow_Val)
  show "naiveAutocompleteRow (map Val row) ! i = Val (row ! i)" if "row ! i \<noteq> Grey"
    using that i by (simp add: out completeRow_nth_active)
  assume ne: "naiveAutocompleteRow (map Val row) ! i \<noteq> Val (row ! i)"
  then show "row ! i = Grey"
    using i completeRow_nth_active [of i row] by (auto simp: out)
  with ne show "naiveAutocompleteRow (map Val row) ! i \<in> {Val Red, Val Blue}"
    using color_cases3 [of "completeRow row ! i"] by (auto simp: out)
next
  show "length (naiveAutocompleteRow (map Val row)) = length row" by simp
next
  fix r c assume r: "r < length g" and c: "c < length (g ! r)"
  from naiveAutocompleteBoard_cell [OF r c]
  obtain x where len: "c < length (naiveAutocompleteBoard (boardOf g) ! r)"
    and x: "naiveAutocompleteBoard (boardOf g) ! r ! c = Val x"
    and keep: "g ! r ! c \<noteq> Grey \<longrightarrow> x = g ! r ! c"
    by blast
  show "c < length (naiveAutocompleteBoard (boardOf g) ! r)" by (rule len)
  show "naiveAutocompleteBoard (boardOf g) ! r ! c = Val (g ! r ! c)" if "g ! r ! c \<noteq> Grey"
    using that x keep by simp
  assume ne: "naiveAutocompleteBoard (boardOf g) ! r ! c \<noteq> Val (g ! r ! c)"
  then show "g ! r ! c = Grey"
    using x keep by auto
  with ne show "naiveAutocompleteBoard (boardOf g) ! r ! c \<in> {Val Red, Val Blue}"
    using color_cases3 [of x] by (auto simp: x)
next
  show "length (naiveAutocompleteBoard (boardOf g)) = length g"
    by (simp add: naiveAutocompleteBoard_columnLoop Let_def)
next
  fix r assume r: "r < length g"
  show "length (naiveAutocompleteBoard (boardOf g) ! r) = max (length (g ! r)) (length g)"
    by (rule naiveAutocompleteBoard_shape(1) [OF r])
  show "length (naiveAutocompleteBoard (boardOf g) ! r) = length (g ! r)"
    if "length g \<le> length (g ! r)"
    using that by (simp add: naiveAutocompleteBoard_shape(1) [OF r])
next
  fix r c assume "r < length g" and "length (g ! r) \<le> c \<and> c < length g"
  then show "naiveAutocompleteBoard (boardOf g) ! r ! c = Undefined"
    by (simp add: naiveAutocompleteBoard_shape(2))
qed

theorem naive_completion_keeps_active_cells_witness:
  "naiveAutocompleteRow (map Val [Red, Grey]) ! 0 = Val Red
   \<and> naiveAutocompleteRow (map Val [Red, Grey]) ! 1 = Val Blue
   \<and> naiveAutocompleteBoard (boardOf [[Red, Grey], [Grey, Grey]]) ! 0 ! 0 = Val Red
   \<and> naiveAutocompleteBoard (boardOf [[Red, Grey], [Grey, Grey]]) ! 1 ! 0 = Val Blue
   \<and> length (naiveAutocompleteBoard (boardOf [[Red, Grey], [Grey, Grey]]) ! 0) = 2
   \<and> naiveAutocompleteBoard (boardOf [[Red], [Red], [Grey]]) ! 0 ! 1 = Undefined"
proof -
  note inst = naive_completion_keeps_active_cells [of "[Red, Grey]" "[[Red, Grey], [Grey, Grey]]"]
  note tall = naive_completion_keeps_active_cells [of "[]" "[[Red], [Red], [Grey]]"]
  have a: "naiveAutocompleteRow (map Val [Red, Grey]) ! 0 = Val Red"
    using inst [THEN conjunct1, rule_format, of 0] by simp
  have b: "naiveAutocompleteRow (map Val [Red, Grey]) ! 1 = Val Blue"
    by code_simp
  have c: "naiveAutocompleteBoard (boardOf [[Red, Grey], [Grey, Grey]]) ! 0 ! 0 = Val Red"
    using inst [THEN conjunct2, THEN conjunct2, THEN conjunct1, rule_format, of 0 0] by simp
  have d: "naiveAutocompleteBoard (boardOf [[Red, Grey], [Grey, Grey]]) ! 1 ! 0 = Val Blue"
    by code_simp
  have e: "length (naiveAutocompleteBoard (boardOf [[Red, Grey], [Grey, Grey]]) ! 0) = 2"
    using inst [THEN conjunct2, THEN conjunct2, THEN conjunct2, THEN conjunct2,
        rule_format, of 0] by simp
  have f: "naiveAutocompleteBoard (boardOf [[Red], [Red], [Grey]]) ! 0 ! 1 = Undefined"
    using tall [THEN conjunct2, THEN conjunct2, THEN conjunct2, THEN conjunct2,
        rule_format, of 0, THEN conjunct2, THEN conjunct2, rule_format, of 1] by simp
  from a b c d e f show ?thesis by blast
qed

text \<open>
  C10 as stated fails on a board with a row shorter than the number of rows: on three
  rows of one square the completed rows have three squares, and the two added squares,
  which the input does not have, hold \<open>undefined\<close> and no colour.
\<close>

theorem naive_completion_pads_short_rows:
  "naiveAutocompleteBoard (boardOf [[Red], [Red], [Grey]])
     = [[Val Red, Undefined, Undefined], [Val Red, Undefined, Undefined],
        [Val Blue, Undefined, Undefined]]"
  by code_simp

section \<open>Boards of colours with no short row\<close>

lemma square_iff: "square g \<longleftrightarrow> (\<forall>row \<in> set g. length row = length g)"
  by (simp add: square_def list_all_iff)

lemma square_nth: "square g \<Longrightarrow> r < length g \<Longrightarrow> length (g ! r) = length g"
  by (simp add: square_iff)

lemma wide_iff: "wide g \<longleftrightarrow> (\<forall>row \<in> set g. length g \<le> length row)"
  by (simp add: wide_def list_all_iff)

lemma square_wide: "square g \<Longrightarrow> wide g"
  by (simp add: square_iff wide_iff)

lemma wide_nth: "wide g \<Longrightarrow> r < length g \<Longrightarrow> length g \<le> length (g ! r)"
  by (simp add: wide_iff)

lemma length_columnsOf [simp]: "length (columnsOf g) = length g"
  by (simp add: columnsOf_def)

lemma square_columnsOf: "square (columnsOf g)"
  by (simp add: square_iff columnsOf_def)

lemma columns_boardOf:
  assumes "wide g"
  shows "columns (boardOf g) = boardOf (columnsOf g)"
proof -
  have "at (map Val row) j = Val (row ! j)" if "row \<in> set g" "j < length g" for row j
    using that assms by (auto simp: at_def wide_iff)
  then show ?thesis
    by (simp add: columns_def boardOf_def columnsOf_def)
qed

subsection \<open>Checkers do not throw on boards of colours with no short row\<close>

lemma firstHitE_Inr:
  "(\<And>x. x \<in> set xs \<Longrightarrow> \<exists>y. f x = Inr y) \<Longrightarrow> \<exists>y. firstHitE f xs = Inr y"
proof (induction xs)
  case Nil
  then show ?case by simp
next
  case (Cons x xs)
  from Cons.prems [of x] obtain y where y: "f x = Inr y" by auto
  from Cons.IH Cons.prems obtain z where z: "firstHitE f xs = Inr z" by auto
  show ?case by (cases y) (simp_all add: y z)
qed

lemma firstHitE_Some:
  "firstHitE f xs = Inr (Some y) \<Longrightarrow> \<exists>x \<in> set xs. f x = Inr (Some y)"
  by (induction xs) (auto split: sum.splits option.splits)

lemma in_set_enumerate_boardOf:
  "(i, row) \<in> set (enumerate k (boardOf g)) \<Longrightarrow> \<exists>line. row = map Val line \<and> line \<in> set g"
  by (auto simp: boardOf_def enumerate_eq_zip dest!: set_zip_rightD)

lemma findOverSaturationRows_Inr:
  "\<exists>y. firstHitE (\<lambda>(index, row). map_sum id (map_option (h index)) (findOverSaturationRow row))
          (enumerate k (boardOf g)) = Inr y"
proof (rule firstHitE_Inr)
  fix x assume "x \<in> set (enumerate k (boardOf g))"
  then have "\<exists>line. snd x = map Val line"
    using in_set_enumerate_boardOf [of "fst x" "snd x" k g] by auto
  then obtain i line where "x = (i, map Val line)"
    by (cases x) auto
  then show "\<exists>y. (case x of (index, row) \<Rightarrow>
                map_sum id (map_option (h index)) (findOverSaturationRow row)) = Inr y"
    by (simp add: findOverSaturationRow_Val)
qed

lemma findOverSaturation_Inr:
  assumes "wide g"
  shows "\<exists>y. findOverSaturation (boardOf g) = Inr y"
proof -
  obtain a where a: "firstHitE (\<lambda>(index, row). map_sum id
      (map_option (\<lambda>(pv, c). OverSaturationRow index pv c)) (findOverSaturationRow row))
      (enumerate 0 (boardOf g)) = Inr a"
    using findOverSaturationRows_Inr [of "\<lambda>index (pv, c). OverSaturationRow index pv c" 0 g]
    by auto
  obtain b where b: "firstHitE (\<lambda>(index, row). map_sum id
      (map_option (\<lambda>(pv, c). OverSaturationColumn index pv c)) (findOverSaturationRow row))
      (enumerate 0 (boardOf (columnsOf g))) = Inr b"
    using findOverSaturationRows_Inr
      [of "\<lambda>index (pv, c). OverSaturationColumn index pv c" 0 "columnsOf g"]
    by auto
  show ?thesis
    by (cases a) (simp_all add: findOverSaturation_def rows_def a b columns_boardOf [OF assms])
qed

lemma findRepeatedRowsFrom_Inr:
  "\<exists>y. findRepeatedRowsFrom m (enumerate k (boardOf g)) = Inr y"
proof (induction g arbitrary: m k)
  case Nil
  then show ?case by (simp add: boardOf_def)
next
  case (Cons line g)
  have e: "enumerate k (boardOf (line # g)) = (k, map Val line) # enumerate (Suc k) (boardOf g)"
    by (simp add: boardOf_def)
  show ?case
    unfolding e using Cons.IH
    by (simp add: positionVectors_Val split: sum.splits)
qed

lemma findLineRepetition_Inr:
  assumes "wide g"
  shows "\<exists>y. findLineRepetition (boardOf g) = Inr y"
proof -
  obtain a where a: "findRepeatedRows (boardOf g) = Inr a"
    using findRepeatedRowsFrom_Inr [of Map.empty 0 g] by (auto simp: findRepeatedRows_def)
  obtain b where b: "findRepeatedRows (boardOf (columnsOf g)) = Inr b"
    using findRepeatedRowsFrom_Inr [of Map.empty 0 "columnsOf g"]
    by (auto simp: findRepeatedRows_def)
  show ?thesis
    by (simp add: findLineRepetition_def rows_def a b columns_boardOf [OF assms]
        split: option.splits)
qed

lemma validateBoard_Inr:
  assumes "wide g"
  shows "\<exists>v. validateBoard (boardOf g) = Inr v"
  using findOverSaturation_Inr [OF assms] findLineRepetition_Inr [OF assms]
  by (auto simp: validateBoard_def split: option.splits)

section \<open>Playing a move\<close>

subsection \<open>The store\<close>

lemma those_map_Some_iff: "those (map f xs) = Some ys \<longleftrightarrow> map f xs = map Some ys"
proof (induction xs arbitrary: ys)
  case Nil
  then show ?case by auto
next
  case (Cons x xs)
  then show ?case by (cases ys) (auto split: option.splits)
qed

lemma cloneRows_spec:
  assumes "heapOk h" and "map (rowArrays h) rs = map Some vals"
  shows "\<exists>h1. cloneRows h rs = Some ([nextRef h..<nextRef h + length rs], h1)
           \<and> heapOk h1 \<and> nextRef h1 = nextRef h + length rs
           \<and> boardArrays h1 = boardArrays h
           \<and> (\<forall>a < nextRef h. rowArrays h1 a = rowArrays h a)
           \<and> (\<forall>i < length rs. rowArrays h1 (nextRef h + i) = Some (map slotValue (vals ! i)))"
  using assms
proof (induction rs arbitrary: h vals)
  case Nil
  then show ?case by simp
next
  case (Cons a as)
  from Cons.prems(2) obtain xs vals' where vals: "vals = xs # vals'"
    and a: "rowArrays h a = Some xs" and as: "map (rowArrays h) as = map Some vals'"
    by (cases vals) auto
  let ?h1 = "h\<lparr>rowArrays := (rowArrays h)(nextRef h \<mapsto> map slotValue xs),
                nextRef := Suc (nextRef h)\<rparr>"
  have ok1: "heapOk ?h1" using Cons.prems(1) by (auto simp: heapOk_def)
  have lt: "r < nextRef h" if "r \<in> set as" for r
  proof (rule ccontr)
    assume "\<not> r < nextRef h"
    then have "rowArrays h r = None" using Cons.prems(1) by (simp add: heapOk_def)
    moreover have "rowArrays h r \<in> set (map Some vals')"
      using that as [symmetric] by auto
    ultimately show False by auto
  qed
  have "map (rowArrays ?h1) as = map (rowArrays h) as"
    using lt by (intro map_cong [OF refl]) auto
  then have as1: "map (rowArrays ?h1) as = map Some vals'"
    using as by simp
  from Cons.IH [OF ok1 as1] obtain h2 where
    c: "cloneRows ?h1 as = Some ([nextRef ?h1..<nextRef ?h1 + length as], h2)"
    and ok2: "heapOk h2" and n2: "nextRef h2 = nextRef ?h1 + length as"
    and b2: "boardArrays h2 = boardArrays ?h1"
    and old2: "\<forall>r < nextRef ?h1. rowArrays h2 r = rowArrays ?h1 r"
    and new2: "\<forall>i < length as. rowArrays h2 (nextRef ?h1 + i) = Some (map slotValue (vals' ! i))"
    by blast
  have upt: "[nextRef h..<nextRef h + length (a # as)]
               = nextRef h # [nextRef ?h1..<nextRef ?h1 + length as]"
    by (subst upt_rec) simp
  have "cloneRows h (a # as) = Some ([nextRef h..<nextRef h + length (a # as)], h2)"
    unfolding upt by (simp add: a newRowArray_def c)
  moreover have "\<forall>r < nextRef h. rowArrays h2 r = rowArrays h r"
    using old2 by auto
  moreover have "\<forall>i < length (a # as). rowArrays h2 (nextRef h + i)
                    = Some (map slotValue (vals ! i))"
  proof (intro allI impI)
    fix i assume i: "i < length (a # as)"
    show "rowArrays h2 (nextRef h + i) = Some (map slotValue (vals ! i))"
    proof (cases i)
      case 0
      then show ?thesis using old2 by (simp add: vals)
    next
      case (Suc j)
      then show ?thesis using new2 i by (simp add: vals)
    qed
  qed
  ultimately show ?case
    using ok2 n2 b2 by auto
qed


lemma readBoard_Some:
  "readBoard h b = Some board \<longleftrightarrow>
     (\<exists>rs. boardArrays h b = Some rs \<and> map (rowArrays h) rs = map Some board)"
  by (auto simp: readBoard_def those_map_Some_iff split: option.splits)

lemma allocated_below_nextRef:
  assumes "heapOk h" and "map (rowArrays h) rs = map Some vals" and "r \<in> set rs"
  shows "r < nextRef h"
proof (rule ccontr)
  assume "\<not> r < nextRef h"
  then have "rowArrays h r = None" using assms(1) by (simp add: heapOk_def)
  moreover have "rowArrays h r \<in> set (map Some vals)"
    using assms(2) [symmetric] assms(3) by auto
  ultimately show False by auto
qed

lemma readBoard_frame:
  assumes ok: "heapOk h" and rd: "readBoard h b = Some board"
    and same: "\<forall>a < nextRef h. rowArrays h' a = rowArrays h a \<and> boardArrays h' a = boardArrays h a"
  shows "readBoard h' b = Some board"
proof -
  from rd obtain rs where rs: "boardArrays h b = Some rs"
    and vals: "map (rowArrays h) rs = map Some board"
    by (auto simp: readBoard_Some)
  have b: "b < nextRef h"
    using ok rs by (cases "b < nextRef h") (auto simp: heapOk_def)
  have "map (rowArrays h') rs = map (rowArrays h) rs"
    using same allocated_below_nextRef [OF ok vals] by (intro map_cong [OF refl]) auto
  then show ?thesis
    using same b rs vals by (auto simp: readBoard_Some)
qed

lemma cloneBoardH_spec:
  assumes ok: "heapOk h" and rd: "readBoard h b = Some board"
  shows "\<exists>h1. cloneBoardH h b = Some (nextRef h + length board, h1)
           \<and> heapOk h1 \<and> nextRef h1 = Suc (nextRef h + length board)
           \<and> boardArrays h1 = (boardArrays h)
                (nextRef h + length board \<mapsto> [nextRef h..<nextRef h + length board])
           \<and> (\<forall>a < nextRef h. rowArrays h1 a = rowArrays h a)
           \<and> (\<forall>i < length board.
                 rowArrays h1 (nextRef h + i) = Some (map slotValue (board ! i)))"
proof -
  from rd obtain rs where rs: "boardArrays h b = Some rs"
    and vals: "map (rowArrays h) rs = map Some board"
    by (auto simp: readBoard_Some)
  have len: "length rs = length board"
    using vals by (metis length_map)
  from cloneRows_spec [OF ok vals] obtain h1 where
    c: "cloneRows h rs = Some ([nextRef h..<nextRef h + length rs], h1)"
    and ok1: "heapOk h1" and n1: "nextRef h1 = nextRef h + length rs"
    and b1: "boardArrays h1 = boardArrays h"
    and old1: "\<forall>a < nextRef h. rowArrays h1 a = rowArrays h a"
    and new1: "\<forall>i < length rs. rowArrays h1 (nextRef h + i) = Some (map slotValue (board ! i))"
    by blast
  let ?h = "h1\<lparr>boardArrays := (boardArrays h1)(nextRef h1 \<mapsto> [nextRef h..<nextRef h + length rs]),
               nextRef := Suc (nextRef h1)\<rparr>"
  have "cloneBoardH h b = Some (nextRef h + length board, ?h)"
    by (simp add: cloneBoardH_def rs c newBoardArray_def n1 len)
  moreover have "heapOk ?h"
    using ok1 by (auto simp: heapOk_def)
  ultimately show ?thesis
    using n1 b1 old1 new1 len by auto
qed

lemma playMoveH_refines:
  assumes ok: "heapOk h" and rd: "readBoard h b = Some board"
  shows "\<exists>h' res. playMoveH h b m = Some (h', res)
           \<and> (\<forall>a < nextRef h. rowArrays h' a = rowArrays h a \<and> boardArrays h' a = boardArrays h a)
           \<and> (case res of
                 Inl e \<Rightarrow> playMove board m = Inl e
               | Inr (nb, v) \<Rightarrow>
                   nb = nextRef h + length board
                   \<and> boardArrays h' nb = Some [nextRef h..<nextRef h + length board]
                   \<and> (\<exists>newBoard. readBoard h' nb = Some newBoard
                                  \<and> playMove board m = Inr (newBoard, v)))"
proof -
  let ?n = "nextRef h" and ?L = "length board"
  let ?nb = "?n + ?L"
  from cloneBoardH_spec [OF ok rd] obtain h1 where
    cb: "cloneBoardH h b = Some (?nb, h1)"
    and ok1: "heapOk h1" and n1: "nextRef h1 = Suc ?nb"
    and b1: "boardArrays h1 = (boardArrays h)(?nb \<mapsto> [?n..<?n + ?L])"
    and old1: "\<forall>a < ?n. rowArrays h1 a = rowArrays h a"
    and new1: "\<forall>i < ?L. rowArrays h1 (?n + i) = Some (map slotValue (board ! i))"
    by blast
  have bnb: "boardArrays h1 ?nb = Some [?n..<?n + ?L]" by (simp add: b1)
  have frame1: "\<forall>a < ?n. rowArrays h1 a = rowArrays h a \<and> boardArrays h1 a = boardArrays h a"
    using old1 by (simp add: b1)
  show ?thesis
  proof (cases "moveRow m < 0 \<or> moveRow m \<ge> int ?L")
    case True
    then have "playMoveH h b m = Some (h1, Inl TypeError)"
      by (auto simp: playMoveH_def cb bnb)
    moreover have "playMove board m = Inl TypeError"
      using True by (auto simp: playMove_def setSquare_def cloneBoard_def)
    ultimately show ?thesis using frame1 by simp
  next
    case False
    define r where "r = nat (moveRow m)"
    have r: "r < ?L" using False unfolding r_def by linarith
    have ref: "[?n..<?n + ?L] ! r = ?n + r" using r by simp
    have xs: "rowArrays h1 (?n + r) = Some (map slotValue (board ! r))"
      using new1 r by simp
    define skip where "skip \<longleftrightarrow> moveColumn m < 0
      \<or> (int (length (board ! r)) \<le> moveColumn m \<and> 4294967295 \<le> moveColumn m)"
    define ys where "ys = (if skip then map slotValue (board ! r)
      else assign (map slotValue (board ! r)) (nat (moveColumn m)) (Val (moveColor m)))"
    define h2 where "h2 = (if skip then h1
      else h1\<lparr>rowArrays := (rowArrays h1)(?n + r \<mapsto> ys)\<rparr>)"
    define newBoard where "newBoard = (cloneBoard board)[r := ys]"
    have set: "setSquare (cloneBoard board) m = Inr newBoard"
    proof (cases skip)
      case True
      then have "newBoard = cloneBoard board"
        using r by (simp add: newBoard_def ys_def cloneBoard_def list_update_same_conv)
      then show ?thesis
        using False True r
        by (simp add: setSquare_def skip_def r_def [symmetric] cloneBoard_def)
    next
      case noskip: False
      then have "ys = assign (map slotValue (board ! r)) (nat (moveColumn m)) (Val (moveColor m))"
        by (simp add: ys_def)
      then show ?thesis
        using False r noskip [unfolded skip_def]
        by (auto simp: setSquare_def newBoard_def r_def [symmetric] cloneBoard_def)
    qed
    have b2: "boardArrays h2 = boardArrays h1" by (simp add: h2_def)
    have row2: "rowArrays h2 (?n + i) = Some (newBoard ! i)" if "i < ?L" for i
      using that new1 r
      by (auto simp: h2_def newBoard_def ys_def cloneBoard_def nth_list_update)
    have "map (rowArrays h2) [?n..<?n + ?L] = map Some newBoard"
      by (rule nth_equalityI) (auto simp: newBoard_def cloneBoard_def row2)
    then have rd2: "readBoard h2 ?nb = Some newBoard"
      by (simp add: readBoard_Some b2 bnb)
    have bnb2: "boardArrays h2 ?nb = Some [?n..<?n + ?L]"
      by (simp add: b2 bnb)
    have frame2: "\<forall>a < ?n. rowArrays h2 a = rowArrays h a \<and> boardArrays h2 a = boardArrays h a"
      using frame1 by (auto simp: h2_def)
    have run: "playMoveH h b m =
      (case validateBoard newBoard of
         Inl e \<Rightarrow> Some (h2, Inl e)
       | Inr violation \<Rightarrow> Some (h2, Inr (?nb, violation)))"
    proof (cases skip)
      case True
      then have h2: "h2 = h1" by (simp add: h2_def)
      have cond: "(moveColumn m < 0
          \<or> (int (length (board ! nat (moveRow m))) \<le> moveColumn m
              \<and> 4294967295 \<le> moveColumn m)) = True"
        using True by (simp add: skip_def r_def)
      show ?thesis
        using False rd2 [unfolded h2]
        by (simp add: playMoveH_def cb bnb ref [unfolded r_def] xs [unfolded r_def] h2 cond
            del: upt_Suc split: sum.splits)
    next
      case noskip: False
      have h2: "h1\<lparr>rowArrays := (rowArrays h1)(?n + nat (moveRow m) \<mapsto>
                   assign (map slotValue (board ! nat (moveRow m))) (nat (moveColumn m))
                     (Val (moveColor m)))\<rparr> = h2"
        using noskip by (simp add: h2_def ys_def r_def)
      have cond: "(moveColumn m < 0
          \<or> (int (length (board ! nat (moveRow m))) \<le> moveColumn m
              \<and> 4294967295 \<le> moveColumn m)) = False"
        using noskip by (simp add: skip_def r_def)
      show ?thesis
        using False rd2
        by (simp add: playMoveH_def cb bnb ref [unfolded r_def] xs [unfolded r_def] h2 cond
            del: upt_Suc split: sum.splits)
    qed
    show ?thesis
    proof (cases "validateBoard newBoard")
      case (Inl e)
      then show ?thesis
        using frame2 by (simp add: run playMove_def set)
    next
      case (Inr v)
      then show ?thesis
        using frame2 rd2 bnb2 by (simp add: run playMove_def set del: upt_Suc)
    qed
  qed
qed


subsection \<open>Moves inside the grid\<close>

lemma nth_update_if: "r < length xs \<Longrightarrow> xs[i := x] ! r = (if i = r then x else xs ! r)"
  by (cases "i = r") auto

lemma boardOf_update: "boardOf (g[r := row]) = (boardOf g)[r := map Val row]"
  by (simp add: boardOf_def map_update)

lemma setSquare_played:
  assumes "inBounds g m"
  shows "setSquare (boardOf g) m = Inr (boardOf (played g m))"
proof -
  let ?r = "nat (moveRow m)" and ?c = "nat (moveColumn m)"
  have r: "?r < length g" and c: "?c < length (g ! ?r)"
    using assms unfolding inBounds_def by linarith+
  have "assign (map Val (g ! ?r)) ?c (Val (moveColor m)) = map Val ((g ! ?r)[?c := moveColor m])"
    using c by (simp add: assign_def map_update)
  then show ?thesis
    using assms r c by (simp add: setSquare_def inBounds_def played_def boardOf_update)
qed

lemma square_played:
  assumes "square g"
  shows "square (played g m)"
proof -
  have "length (played g m ! r) = length (played g m)" if "r < length (played g m)" for r
    using that assms by (simp add: played_def nth_update_if square_nth)
  then show ?thesis
    by (auto simp: square_iff in_set_conv_nth)
qed

lemma wide_played:
  assumes "wide g"
  shows "wide (played g m)"
proof -
  have "length (played g m) \<le> length (played g m ! r)" if "r < length (played g m)" for r
    using that assms by (simp add: played_def nth_update_if wide_nth)
  then show ?thesis
    by (auto simp: wide_iff in_set_conv_nth)
qed

lemma playMove_inBounds:
  assumes "inBounds g m"
  shows "playMove (boardOf g) m =
           (case validateBoard (boardOf (played g m)) of
              Inl e \<Rightarrow> Inl e
            | Inr v \<Rightarrow> Inr (boardOf (played g m), v))"
  by (simp add: playMove_def setSquare_played [OF assms])

lemma playMove_wide:
  assumes "wide g" and "inBounds g m"
  shows "\<exists>v. playMove (boardOf g) m = Inr (boardOf (played g m), v)
             \<and> validateBoard (boardOf (played g m)) = Inr v"
  using validateBoard_Inr [OF wide_played [OF assms(1)], of m]
  by (auto simp: playMove_inBounds [OF assms(2)])

lemma playMove_square:
  assumes "square g" and "inBounds g m"
  shows "\<exists>v. playMove (boardOf g) m = Inr (boardOf (played g m), v)
             \<and> validateBoard (boardOf (played g m)) = Inr v"
  by (rule playMove_wide [OF square_wide [OF assms(1)] assms(2)])

lemma played_cells:
  "length (played g m) = length g
   \<and> (\<forall>r < length g. length (played g m ! r) = length (g ! r)
        \<and> (\<forall>c < length (g ! r). played g m ! r ! c =
              (if r = nat (moveRow m) \<and> c = nat (moveColumn m) then moveColor m
               else g ! r ! c)))"
  by (auto simp: played_def nth_update_if)

text \<open>
  C8 (as amended). For every grid of colours held in the store and every move inside
  it, \<open>playMove\<close> leaves every array that existed before the call as it was, so the
  input board reads the same before and after. It returns unless validating the new
  grid throws, and that cannot happen when no row is shorter than the number of rows
  (so never on a square grid). The board it returns is a newly allocated board array
  whose row arrays are all newly allocated and distinct, and its contents equal the
  input at every square but the targeted one, which holds the colour of the move.
\<close>

theorem playMove_frame:
  assumes "heapOk h" and "readBoard h b = Some (boardOf g)" and "inBounds g m"
  shows "\<exists>h' res. playMoveH h b m = Some (h', res)
           \<and> readBoard h' b = Some (boardOf g)
           \<and> (\<forall>a < nextRef h. rowArrays h' a = rowArrays h a
                               \<and> boardArrays h' a = boardArrays h a)
           \<and> (case res of
                 Inl e \<Rightarrow>
                   \<not> wide g
                   \<and> validateBoard (boardOf (played g m)) = Inl e
                   \<and> playMove (boardOf g) m = Inl e
               | Inr (nb, v) \<Rightarrow>
                   nextRef h \<le> nb
                   \<and> (\<exists>rs. boardArrays h' nb = Some rs \<and> distinct rs
                             \<and> (\<forall>a \<in> set rs. nextRef h \<le> a))
                   \<and> readBoard h' nb = Some (boardOf (played g m))
                   \<and> validateBoard (boardOf (played g m)) = Inr v
                   \<and> playMove (boardOf g) m = Inr (boardOf (played g m), v))
           \<and> length (played g m) = length g
           \<and> (\<forall>r < length g. length (played g m ! r) = length (g ! r)
                \<and> (\<forall>c < length (g ! r). played g m ! r ! c =
                      (if r = nat (moveRow m) \<and> c = nat (moveColumn m) then moveColor m
                       else g ! r ! c)))"
proof -
  from playMoveH_refines [OF assms(1,2), of m] obtain h' res where
    run: "playMoveH h b m = Some (h', res)"
    and frame: "\<forall>a < nextRef h. rowArrays h' a = rowArrays h a
                                \<and> boardArrays h' a = boardArrays h a"
    and res: "case res of
                Inl e \<Rightarrow> playMove (boardOf g) m = Inl e
              | Inr (nb, v) \<Rightarrow>
                  nb = nextRef h + length (boardOf g)
                  \<and> boardArrays h' nb = Some [nextRef h..<nextRef h + length (boardOf g)]
                  \<and> (\<exists>newBoard. readBoard h' nb = Some newBoard
                                 \<and> playMove (boardOf g) m = Inr (newBoard, v))"
    by blast
  have input: "readBoard h' b = Some (boardOf g)"
    by (rule readBoard_frame [OF assms(1,2) frame])
  note pm = playMove_inBounds [OF assms(3)]
  have "case res of
          Inl e \<Rightarrow>
            \<not> wide g
            \<and> validateBoard (boardOf (played g m)) = Inl e
            \<and> playMove (boardOf g) m = Inl e
        | Inr (nb, v) \<Rightarrow>
            nextRef h \<le> nb
            \<and> (\<exists>rs. boardArrays h' nb = Some rs \<and> distinct rs
                      \<and> (\<forall>a \<in> set rs. nextRef h \<le> a))
            \<and> readBoard h' nb = Some (boardOf (played g m))
            \<and> validateBoard (boardOf (played g m)) = Inr v
            \<and> playMove (boardOf g) m = Inr (boardOf (played g m), v)"
  proof (cases res)
    case (Inl e)
    then have p: "playMove (boardOf g) m = Inl e" using res by simp
    then have "validateBoard (boardOf (played g m)) = Inl e"
      by (auto simp: pm split: sum.splits)
    moreover have "\<not> wide g"
      using p playMove_wide [OF _ assms(3)] by auto
    ultimately show ?thesis using Inl p by simp
  next
    case (Inr q)
    obtain nb v where q: "q = (nb, v)" by (cases q)
    from res Inr q obtain newBoard where
      nb: "nb = nextRef h + length (boardOf g)"
      and rs: "boardArrays h' nb = Some [nextRef h..<nextRef h + length (boardOf g)]"
      and rd: "readBoard h' nb = Some newBoard"
      and p: "playMove (boardOf g) m = Inr (newBoard, v)"
      by auto
    from p have "newBoard = boardOf (played g m) \<and> validateBoard (boardOf (played g m)) = Inr v"
      by (auto simp: pm split: sum.splits)
    moreover have "distinct [nextRef h..<nextRef h + length (boardOf g)]
                   \<and> (\<forall>a \<in> set [nextRef h..<nextRef h + length (boardOf g)]. nextRef h \<le> a)"
      by simp
    ultimately show ?thesis
      using Inr q nb rs rd p by (simp del: upt_Suc)
  qed
  then show ?thesis
    using run input frame played_cells [of g m] by blast
qed

theorem playMove_frame_witness:
  "\<exists>h' nb v rs.
     playMoveH \<lparr>rowArrays = [0 \<mapsto> [Val Grey, Val Grey], 1 \<mapsto> [Val Grey, Val Grey]],
                boardArrays = [2 \<mapsto> [0, 1]], nextRef = 3\<rparr> 2
       \<lparr>moveColor = Red, moveRow = 0, moveColumn = 1\<rparr> = Some (h', Inr (nb, v))
     \<and> readBoard h' 2 = Some (boardOf [[Grey, Grey], [Grey, Grey]])
     \<and> readBoard h' nb = Some (boardOf [[Grey, Red], [Grey, Grey]])
     \<and> 3 \<le> nb \<and> boardArrays h' nb = Some rs \<and> 0 \<notin> set rs \<and> 1 \<notin> set rs"
proof -
  let ?h = "\<lparr>rowArrays = [0 \<mapsto> [Val Grey, Val Grey], 1 \<mapsto> [Val Grey, Val Grey]],
             boardArrays = [2 \<mapsto> [0, 1]], nextRef = 3 :: nat\<rparr>"
  let ?g = "[[Grey, Grey], [Grey, Grey]]"
  let ?m = "\<lparr>moveColor = Red, moveRow = 0, moveColumn = 1\<rparr>"
  have ok: "heapOk ?h" by (auto simp: heapOk_def)
  have rd: "readBoard ?h 2 = Some (boardOf ?g)" by (simp add: readBoard_def boardOf_def)
  have ib: "inBounds ?g ?m" by (simp add: inBounds_def)
  have w: "wide ?g" by (simp add: wide_def)
  have pl: "played ?g ?m = [[Grey, Red], [Grey, Grey]]" by (simp add: played_def)
  from playMove_frame [OF ok rd ib] obtain h' res where
    run: "playMoveH ?h 2 ?m = Some (h', res)"
    and input: "readBoard h' 2 = Some (boardOf ?g)"
    and res: "case res of
                Inl e \<Rightarrow>
                  \<not> wide ?g
                  \<and> validateBoard (boardOf (played ?g ?m)) = Inl e
                  \<and> playMove (boardOf ?g) ?m = Inl e
              | Inr (nb, v) \<Rightarrow>
                  nextRef ?h \<le> nb
                  \<and> (\<exists>rs. boardArrays h' nb = Some rs \<and> distinct rs
                            \<and> (\<forall>a \<in> set rs. nextRef ?h \<le> a))
                  \<and> readBoard h' nb = Some (boardOf (played ?g ?m))
                  \<and> validateBoard (boardOf (played ?g ?m)) = Inr v
                  \<and> playMove (boardOf ?g) ?m = Inr (boardOf (played ?g ?m), v)"
    by blast
  from res w obtain nb v rs where "res = Inr (nb, v)" "3 \<le> nb"
    "readBoard h' nb = Some (boardOf [[Grey, Red], [Grey, Grey]])"
    "boardArrays h' nb = Some rs" "\<forall>a \<in> set rs. 3 \<le> a"
    by (cases res) (auto simp: pl)
  moreover from this have "0 \<notin> set rs \<and> 1 \<notin> set rs" by fastforce
  ultimately show ?thesis using run input by blast
qed

text \<open>
  C8 as stated fails on a grid with two rows and one column that the move leaves all
  empty: the move is inside the grid, and validation reads a second column that does not
  exist and throws.
\<close>

theorem playMove_aborts_on_tall_grid:
  "inBounds [[Grey], [Grey]] \<lparr>moveColor = Grey, moveRow = 0, moveColumn = 0\<rparr>
   \<and> playMove (boardOf [[Grey], [Grey]]) \<lparr>moveColor = Grey, moveRow = 0, moveColumn = 0\<rparr>
       = Inl TypeError"
  by (simp add: inBounds_def) code_simp

section \<open>Moves outside the board\<close>

text \<open>
  C9 (as amended). A move whose row index is negative or not below the number of rows
  makes \<open>playMove\<close> throw, whatever the board and the column index.
\<close>

theorem playMove_row_out_of_bounds:
  "moveRow m < 0 \<or> moveRow m \<ge> int (length board) \<Longrightarrow> playMove board m = Inl TypeError"
  by (auto simp: playMove_def setSquare_def cloneBoard_def)

theorem playMove_row_out_of_bounds_witness:
  "playMove (boardOf [[Grey]]) \<lparr>moveColor = Red, moveRow = 1, moveColumn = 0\<rparr> = Inl TypeError
   \<and> playMove (boardOf [[Grey]]) \<lparr>moveColor = Red, moveRow = -1, moveColumn = 0\<rparr> = Inl TypeError"
  using playMove_row_out_of_bounds [of "\<lparr>moveColor = Red, moveRow = 1, moveColumn = 0\<rparr>"
      "boardOf [[Grey]]"]
    playMove_row_out_of_bounds [of "\<lparr>moveColor = Red, moveRow = -1, moveColumn = 0\<rparr>"
      "boardOf [[Grey]]"]
  by simp

text \<open>
  C9 as stated fails for the column index: with the row inside the board, a column past
  the end of the row grows the row, and a negative column changes no square; in both
  cases \<open>playMove\<close> returns.
\<close>

theorem playMove_accepts_column_out_of_bounds:
  "playMove (boardOf [[Grey]]) \<lparr>moveColor = Red, moveRow = 0, moveColumn = 1\<rparr>
     = Inr ([[Val Grey, Val Red]], None)
   \<and> playMove (boardOf [[Grey]]) \<lparr>moveColor = Red, moveRow = 0, moveColumn = -1\<rparr>
       = Inr ([[Val Grey]], None)"
  by code_simp

section \<open>Thrice repetition\<close>

subsection \<open>The first hit of a loop over indexed entries\<close>

lemma firstHit_enumerate_None:
  "firstHit f (enumerate k xs) = None \<longleftrightarrow> (\<forall>i < length xs. f (k + i, xs ! i) = None)"
proof (induction xs arbitrary: k)
  case Nil
  then show ?case by simp
next
  case (Cons x xs)
  have "(\<forall>i < length (x # xs). f (k + i, (x # xs) ! i) = None)
        \<longleftrightarrow> f (k, x) = None \<and> (\<forall>i < length xs. f (Suc k + i, xs ! i) = None)"
    by (auto simp: All_less_Suc2)
  then show ?case
    using Cons.IH [of "Suc k"] by (auto split: option.splits)
qed

lemma firstHit_enumerate_Some:
  "firstHit f (enumerate k xs) = Some y \<longleftrightarrow>
     (\<exists>i < length xs. f (k + i, xs ! i) = Some y \<and> (\<forall>j < i. f (k + j, xs ! j) = None))"
proof (induction xs arbitrary: k)
  case Nil
  then show ?case by simp
next
  case (Cons x xs)
  let ?P = "\<lambda>k xs i. f (k + i, xs ! i) = Some y \<and> (\<forall>j < i. f (k + j, xs ! j) = None)"
  have split: "(\<exists>i < length (x # xs). ?P k (x # xs) i)
        \<longleftrightarrow> f (k, x) = Some y \<or> (f (k, x) = None \<and> (\<exists>i < length xs. ?P (Suc k) xs i))"
    (is "?L \<longleftrightarrow> ?R")
  proof
    assume ?L
    then obtain i where i: "i < length (x # xs)" "?P k (x # xs) i" by blast
    show ?R
    proof (cases i)
      case 0
      then show ?thesis using i by simp
    next
      case (Suc i')
      have "f (k, x) = None" using i(2) Suc by (auto dest: spec [of _ 0])
      moreover have "?P (Suc k) xs i'"
        using i Suc by (auto simp: All_less_Suc2)
      ultimately show ?thesis using i(1) Suc by auto
    qed
  next
    assume ?R
    then show ?L
    proof
      assume "f (k, x) = Some y"
      then have "?P k (x # xs) 0" by simp
      then show ?L by blast
    next
      assume "f (k, x) = None \<and> (\<exists>i < length xs. ?P (Suc k) xs i)"
      then obtain i where "f (k, x) = None" "i < length xs" "?P (Suc k) xs i" by blast
      then have "Suc i < length (x # xs) \<and> ?P k (x # xs) (Suc i)"
        by (auto simp: All_less_Suc2)
      then show ?L by blast
    qed
  qed
  show ?case
    unfolding split using Cons.IH [of "Suc k"] by (auto split: option.splits)
qed


subsection \<open>One line\<close>

lemma tripleAt_length: "tripleAt line i \<Longrightarrow> i < length line"
  by (simp add: tripleAt_def)

lemma firstTriple_Some:
  "firstTriple line = Some i \<longleftrightarrow> tripleAt line i \<and> (\<forall>k < i. \<not> tripleAt line k)"
proof
  assume "firstTriple line = Some i"
  then obtain k where k: "k < length line" and t: "tripleAt line ([0..<length line] ! k)"
    and i: "i = [0..<length line] ! k"
    and first: "\<forall>j < k. \<not> tripleAt line ([0..<length line] ! j)"
    by (auto simp: firstTriple_def find_Some_iff)
  have ik: "i = k" using i k by simp
  have "\<not> tripleAt line j" if "j < k" for j
    using first that k by (auto dest!: spec [of _ j])
  then show "tripleAt line i \<and> (\<forall>k < i. \<not> tripleAt line k)"
    using t k ik by simp
next
  assume a: "tripleAt line i \<and> (\<forall>k < i. \<not> tripleAt line k)"
  then have i: "i < length line" by (simp add: tripleAt_length)
  have "i < length [0..<length line] \<and> tripleAt line ([0..<length line] ! i)
        \<and> i = [0..<length line] ! i
        \<and> (\<forall>j < i. \<not> tripleAt line ([0..<length line] ! j))"
    using a i by simp
  then show "firstTriple line = Some i"
    unfolding firstTriple_def find_Some_iff by blast
qed

lemma firstTriple_None: "firstTriple line = None \<longleftrightarrow> \<not> hasTriple line"
  by (auto simp: firstTriple_def find_None_iff hasTriple_def)

lemma hasTriple_iff: "hasTriple line \<longleftrightarrow> (\<exists>i. tripleAt line i)"
  using tripleAt_length by (auto simp: hasTriple_def)

lemma entries_Val: "entries (map Val line) = enumerate 0 (map Val line)"
  by (simp add: entries_def comp_def)

lemma thriceAt_Val:
  assumes "idx < length line"
  shows "thriceAt (map Val line) (idx, Val (line ! idx)) =
           (if 2 \<le> idx \<and> tripleAt line (idx - 2)
            then Some ((idx - 2, idx - 1, idx), Val (line ! (idx - 2))) else None)"
proof (cases "idx < 2")
  case True
  then show ?thesis by (simp add: thriceAt_def)
next
  case False
  then obtain i where idx: "idx = i + 2"
    by (metis add.commute le_add_diff_inverse not_less)
  then show ?thesis
    using assms by (auto simp: thriceAt_def at_def tripleAt_def Let_def)
qed

lemma findThriceRepetitionRow_Val:
  "findThriceRepetitionRow (map Val line)
     = map_option (\<lambda>i. ((i, i + 1, i + 2), Val (line ! i))) (firstTriple line)"
proof (cases "firstTriple line")
  case None
  then have no: "\<not> tripleAt line i" for i
    by (simp add: firstTriple_None hasTriple_iff)
  have "firstHit (thriceAt (map Val line)) (enumerate 0 (map Val line)) = None"
    unfolding firstHit_enumerate_None by (simp add: thriceAt_Val no)
  then show ?thesis
    by (simp add: None findThriceRepetitionRow_def entries_Val)
next
  case (Some i)
  then have t: "tripleAt line i" and first: "\<And>k. k < i \<Longrightarrow> \<not> tripleAt line k"
    by (simp_all add: firstTriple_Some)
  have len: "i + 2 < length line" using t by (simp add: tripleAt_def)
  have hit: "thriceAt (map Val line) (0 + (i + 2), map Val line ! (i + 2))
               = Some ((i, i + 1, i + 2), Val (line ! i))"
    using thriceAt_Val [OF len] t len by simp
  have before: "thriceAt (map Val line) (0 + j, map Val line ! j) = None" if "j < i + 2" for j
  proof -
    have j: "j < length line" using that len by simp
    have "\<not> (2 \<le> j \<and> tripleAt line (j - 2))"
      using that first [of "j - 2"] by auto
    then show ?thesis
      using thriceAt_Val [OF j] j by simp
  qed
  have "firstHit (thriceAt (map Val line)) (enumerate 0 (map Val line))
          = Some ((i, i + 1, i + 2), Val (line ! i))"
    unfolding firstHit_enumerate_Some using len hit before
    by (intro exI [of _ "i + 2"]) simp
  then show ?thesis
    by (simp add: Some findThriceRepetitionRow_def entries_Val)
qed


subsection \<open>All rows, then all columns\<close>

lemma firstTripleLine_Some:
  "firstTripleLine ls = Some (r, i) \<longleftrightarrow>
     r < length ls \<and> (\<forall>r' < r. \<not> hasTriple (ls ! r'))
     \<and> tripleAt (ls ! r) i \<and> (\<forall>k < i. \<not> tripleAt (ls ! r) k)"
proof
  assume a: "firstTripleLine ls = Some (r, i)"
  then obtain r0 where f: "find (\<lambda>r. hasTriple (ls ! r)) [0..<length ls] = Some r0"
    and ft: "map_option (Pair r0) (firstTriple (ls ! r0)) = Some (r, i)"
    by (auto simp: firstTripleLine_def split: option.splits)
  from ft have r0: "r0 = r" and fi: "firstTriple (ls ! r) = Some i" by auto
  from f obtain k where k: "k < length ls" and rk: "r0 = [0..<length ls] ! k"
    and first: "\<forall>j < k. \<not> hasTriple (ls ! ([0..<length ls] ! j))"
    by (auto simp: find_Some_iff)
  have kr: "k = r" using rk k r0 by simp
  have "\<not> hasTriple (ls ! j)" if "j < r" for j
    using first that k kr by (auto dest!: spec [of _ j])
  then show "r < length ls \<and> (\<forall>r' < r. \<not> hasTriple (ls ! r'))
             \<and> tripleAt (ls ! r) i \<and> (\<forall>k < i. \<not> tripleAt (ls ! r) k)"
    using k kr fi by (simp add: firstTriple_Some)
next
  assume a: "r < length ls \<and> (\<forall>r' < r. \<not> hasTriple (ls ! r'))
             \<and> tripleAt (ls ! r) i \<and> (\<forall>k < i. \<not> tripleAt (ls ! r) k)"
  then have fi: "firstTriple (ls ! r) = Some i" by (simp add: firstTriple_Some)
  have ht: "hasTriple (ls ! r)" using a by (auto simp: hasTriple_iff)
  have "r < length [0..<length ls] \<and> hasTriple (ls ! ([0..<length ls] ! r))
        \<and> r = [0..<length ls] ! r
        \<and> (\<forall>j < r. \<not> hasTriple (ls ! ([0..<length ls] ! j)))"
    using a ht by simp
  then have "find (\<lambda>r. hasTriple (ls ! r)) [0..<length ls] = Some r"
    unfolding find_Some_iff by blast
  then show "firstTripleLine ls = Some (r, i)"
    by (simp add: firstTripleLine_def fi)
qed

lemma firstTripleLine_None:
  "firstTripleLine ls = None \<longleftrightarrow> (\<forall>line \<in> set ls. \<not> hasTriple line)"
proof -
  have "firstTripleLine ls = None \<longleftrightarrow> find (\<lambda>r. hasTriple (ls ! r)) [0..<length ls] = None"
  proof (cases "find (\<lambda>r. hasTriple (ls ! r)) [0..<length ls]")
    case None
    then show ?thesis by (simp add: firstTripleLine_def)
  next
    case (Some r)
    then have "hasTriple (ls ! r)" by (auto simp: find_Some_iff)
    then have "firstTriple (ls ! r) \<noteq> None" by (simp add: firstTriple_None)
    then show ?thesis by (auto simp: firstTripleLine_def Some)
  qed
  also have "\<dots> \<longleftrightarrow> (\<forall>r < length ls. \<not> hasTriple (ls ! r))"
    by (auto simp: find_None_iff)
  also have "\<dots> \<longleftrightarrow> (\<forall>line \<in> set ls. \<not> hasTriple line)"
    by (metis in_set_conv_nth)
  finally show ?thesis .
qed

lemma thriceLines_boardOf:
  "firstHit (\<lambda>(index, row). map_option (\<lambda>(cs, c). K index cs c) (findThriceRepetitionRow row))
      (enumerate 0 (boardOf ls))
     = map_option (\<lambda>(r, i). K r (i, i + 1, i + 2) (Val (ls ! r ! i))) (firstTripleLine ls)"
  (is "firstHit ?f _ = _")
proof -
  have f: "?f (0 + r, boardOf ls ! r)
             = map_option (\<lambda>i. K r (i, i + 1, i + 2) (Val (ls ! r ! i))) (firstTriple (ls ! r))"
    if "r < length ls" for r
    using that by (simp add: findThriceRepetitionRow_Val option.map_comp comp_def)
  show ?thesis
  proof (cases "firstTripleLine ls")
    case None
    then have "\<forall>r < length ls. firstTriple (ls ! r) = None"
      by (simp add: firstTripleLine_None firstTriple_None)
    then have "firstHit ?f (enumerate 0 (boardOf ls)) = None"
      unfolding firstHit_enumerate_None using f by simp
    then show ?thesis by (simp add: None)
  next
    case (Some p)
    obtain r i where p: "p = (r, i)" by (cases p)
    from Some have r: "r < length ls" and before: "\<forall>r' < r. \<not> hasTriple (ls ! r')"
      and fi: "firstTriple (ls ! r) = Some i"
      by (simp_all add: p firstTripleLine_Some firstTriple_Some)
    have "?f (0 + r, boardOf ls ! r) = Some (K r (i, i + 1, i + 2) (Val (ls ! r ! i)))"
      using f [OF r] by (simp add: fi)
    moreover have "\<forall>j < r. ?f (0 + j, boardOf ls ! j) = None"
      using before r f by (simp add: firstTriple_None [symmetric])
    ultimately have "firstHit ?f (enumerate 0 (boardOf ls))
                       = Some (K r (i, i + 1, i + 2) (Val (ls ! r ! i)))"
      unfolding firstHit_enumerate_Some using r by (intro exI [of _ r]) simp
    then show ?thesis by (simp add: Some p)
  qed
qed

lemma findThriceRepetition_boardOf:
  assumes "square g"
  shows "findThriceRepetition (boardOf g) =
           (case firstTripleLine g of
              Some (r, i) \<Rightarrow> Some (ThriceRepetitionRow r (i, i + 1, i + 2) (Val (g ! r ! i)))
            | None \<Rightarrow>
                map_option (\<lambda>(j, i). ThriceRepetitionColumn j (i, i + 1, i + 2)
                                       (Val (columnsOf g ! j ! i)))
                  (firstTripleLine (columnsOf g)))"
  by (simp add: findThriceRepetition_def rows_def columns_boardOf [OF square_wide [OF assms]]
      thriceLines_boardOf split: option.splits)


text \<open>
  C5 (as amended). On every square grid of colours, \<open>findThriceRepetition\<close> returns
  nothing exactly when no row and no column contains three consecutive squares of the
  same active colour. What it returns is the leftmost triple of the first row that has
  one, and, only when no row has one, the leftmost triple of the first column that has
  one. On any line the row checker reports the leftmost triple, whose three squares hold
  one active colour (so none is empty), and a line shorter than 3 is never reported.
\<close>

theorem findThriceRepetition_square:
  assumes "square g"
  shows "(findThriceRepetition (boardOf g) = None \<longleftrightarrow>
            (\<forall>line \<in> set g \<union> set (columnsOf g). \<not> hasTriple line))
    \<and> (findThriceRepetition (boardOf g) = Some v \<longleftrightarrow>
          (\<exists>r i. r < length g \<and> (\<forall>r' < r. \<not> hasTriple (g ! r'))
                 \<and> tripleAt (g ! r) i \<and> (\<forall>k < i. \<not> tripleAt (g ! r) k)
                 \<and> v = ThriceRepetitionRow r (i, i + 1, i + 2) (Val (g ! r ! i)))
          \<or> ((\<forall>row \<in> set g. \<not> hasTriple row)
              \<and> (\<exists>j i. j < length g \<and> (\<forall>j' < j. \<not> hasTriple (columnsOf g ! j'))
                     \<and> tripleAt (columnsOf g ! j) i \<and> (\<forall>k < i. \<not> tripleAt (columnsOf g ! j) k)
                     \<and> v = ThriceRepetitionColumn j (i, i + 1, i + 2)
                             (Val (columnsOf g ! j ! i)))))
    \<and> (length line < 3 \<longrightarrow> findThriceRepetitionRow (map Val line) = None)
    \<and> (findThriceRepetitionRow (map Val line) = Some (t, c) \<longleftrightarrow>
          (\<exists>i. tripleAt line i \<and> (\<forall>k < i. \<not> tripleAt line k)
               \<and> t = (i, i + 1, i + 2) \<and> c = Val (line ! i)))"
proof (intro conjI)
  note eq = findThriceRepetition_boardOf [OF assms]
  show "findThriceRepetition (boardOf g) = None \<longleftrightarrow>
          (\<forall>line \<in> set g \<union> set (columnsOf g). \<not> hasTriple line)"
  proof -
    have "findThriceRepetition (boardOf g) = None \<longleftrightarrow>
            firstTripleLine g = None \<and> firstTripleLine (columnsOf g) = None"
      by (auto simp: eq split: option.splits)
    then show ?thesis
      by (auto simp: firstTripleLine_None)
  qed
  show "findThriceRepetition (boardOf g) = Some v \<longleftrightarrow>
          (\<exists>r i. r < length g \<and> (\<forall>r' < r. \<not> hasTriple (g ! r'))
                 \<and> tripleAt (g ! r) i \<and> (\<forall>k < i. \<not> tripleAt (g ! r) k)
                 \<and> v = ThriceRepetitionRow r (i, i + 1, i + 2) (Val (g ! r ! i)))
          \<or> ((\<forall>row \<in> set g. \<not> hasTriple row)
              \<and> (\<exists>j i. j < length g \<and> (\<forall>j' < j. \<not> hasTriple (columnsOf g ! j'))
                     \<and> tripleAt (columnsOf g ! j) i \<and> (\<forall>k < i. \<not> tripleAt (columnsOf g ! j) k)
                     \<and> v = ThriceRepetitionColumn j (i, i + 1, i + 2)
                             (Val (columnsOf g ! j ! i))))"
    (is "?L \<longleftrightarrow> ?A \<or> ?B")
  proof (cases "firstTripleLine g")
    case None
    then have noA: "\<not> ?A"
      using firstTripleLine_Some [of g] by (metis option.distinct(1))
    have rowsNone: "\<forall>row \<in> set g. \<not> hasTriple row"
      using None by (simp add: firstTripleLine_None)
    have "?L \<longleftrightarrow> (\<exists>j i. firstTripleLine (columnsOf g) = Some (j, i)
                        \<and> v = ThriceRepetitionColumn j (i, i + 1, i + 2)
                                (Val (columnsOf g ! j ! i)))"
      by (auto simp: eq None)
    also have "\<dots> \<longleftrightarrow> ?B"
      using rowsNone by (simp add: firstTripleLine_Some)
    finally show ?thesis using noA by blast
  next
    case (Some p)
    obtain r i where p: "p = (r, i)" by (cases p)
    have noB: "\<not> ?B"
      using Some by (metis firstTripleLine_None option.distinct(1))
    have "?L \<longleftrightarrow> v = ThriceRepetitionRow r (i, i + 1, i + 2) (Val (g ! r ! i))"
      by (auto simp: eq Some p)
    also have "\<dots> \<longleftrightarrow> ?A"
    proof
      assume "v = ThriceRepetitionRow r (i, i + 1, i + 2) (Val (g ! r ! i))"
      then show ?A
        using Some [unfolded p firstTripleLine_Some] by blast
    next
      assume ?A
      then obtain r' i' where "r' < length g \<and> (\<forall>k < r'. \<not> hasTriple (g ! k))
          \<and> tripleAt (g ! r') i' \<and> (\<forall>k < i'. \<not> tripleAt (g ! r') k)"
        and v: "v = ThriceRepetitionRow r' (i', i' + 1, i' + 2) (Val (g ! r' ! i'))"
        by blast
      then have "firstTripleLine g = Some (r', i')"
        by (simp add: firstTripleLine_Some)
      with v show "v = ThriceRepetitionRow r (i, i + 1, i + 2) (Val (g ! r ! i))"
        using Some p by simp
    qed
    finally show ?thesis using noB by blast
  qed
  show "length line < 3 \<longrightarrow> findThriceRepetitionRow (map Val line) = None"
    by (auto simp: findThriceRepetitionRow_Val firstTriple_None hasTriple_iff tripleAt_def)
  show "findThriceRepetitionRow (map Val line) = Some (t, c) \<longleftrightarrow>
          (\<exists>i. tripleAt line i \<and> (\<forall>k < i. \<not> tripleAt line k)
               \<and> t = (i, i + 1, i + 2) \<and> c = Val (line ! i))"
    by (auto simp: findThriceRepetitionRow_Val firstTriple_Some)
qed

theorem findThriceRepetition_square_witness:
  "findThriceRepetition (boardOf [[Grey, Blue, Grey], [Red, Red, Red], [Blue, Blue, Blue]])
     = Some (ThriceRepetitionRow 1 (0, 1, 2) (Val Red))
   \<and> findThriceRepetition (boardOf [[Red, Blue], [Blue, Red]]) = None"
proof
  let ?g = "[[Grey, Blue, Grey], [Red, Red, Red], [Blue, Blue, Blue]]"
  have sq: "square ?g" by (simp add: square_def)
  show "findThriceRepetition (boardOf ?g) = Some (ThriceRepetitionRow 1 (0, 1, 2) (Val Red))"
    by (rule findThriceRepetition_square [OF sq, THEN conjunct2, THEN conjunct1, THEN iffD2],
        rule disjI1, rule exI [of _ 1], rule exI [of _ 0])
      (simp add: hasTriple_def tripleAt_def)
  let ?h = "[[Red, Blue], [Blue, Red]]"
  have sqh: "square ?h" by (simp add: square_def)
  show "findThriceRepetition (boardOf ?h) = None"
    by (rule findThriceRepetition_square [OF sqh, THEN conjunct1, THEN iffD2])
      (simp add: columnsOf_def hasTriple_def tripleAt_def)
qed

text \<open>
  C5 as stated fails on grids that are not square, because \<open>columns\<close> builds as many
  columns as the board has rows. On a grid of 3 rows and 4 columns the last column holds
  three reds and nothing is reported; on a grid of 3 rows and 1 column of empty squares
  the "column" at index 1 reads \<open>undefined\<close> three times, which is reported.
\<close>

theorem findThriceRepetition_not_square:
  "findThriceRepetition (boardOf [[Grey, Grey, Grey, Red], [Grey, Grey, Grey, Red],
                                   [Grey, Grey, Grey, Red]]) = None
   \<and> hasTriple (map (\<lambda>row. row ! 3) [[Grey, Grey, Grey, Red], [Grey, Grey, Grey, Red],
                                        [Grey, Grey, Grey, Red]])
   \<and> findThriceRepetition (boardOf [[Grey], [Grey], [Grey]])
       = Some (ThriceRepetitionColumn 1 (0, 1, 2) Undefined)"
  by code_simp

section \<open>The move finder\<close>

lemma firstHitE_append:
  "firstHitE f (xs @ ys) =
     (case firstHitE f xs of
        Inl e \<Rightarrow> Inl e
      | Inr (Some y) \<Rightarrow> Inr (Some y)
      | Inr None \<Rightarrow> firstHitE f ys)"
  by (induction xs) (auto split: sum.splits option.splits)

lemma firstHitE_map: "firstHitE f (map h xs) = firstHitE (\<lambda>x. f (h x)) xs"
  by (induction xs) (auto split: sum.splits option.splits)

lemma firstHitE_cong:
  "(\<And>x. x \<in> set xs \<Longrightarrow> f x = g x) \<Longrightarrow> firstHitE f xs = firstHitE g xs"
  by (induction xs) (auto split: sum.splits option.splits)

lemma firstHitE_concat:
  "firstHitE (\<lambda>x. firstHitE f (h x)) xs = firstHitE f (concat (map h xs))"
  by (induction xs) (auto simp: firstHitE_append split: sum.splits option.splits)

lemma firstHitE_filter:
  "firstHitE (\<lambda>x. if P x then f x else Inr None) xs = firstHitE f (filter P xs)"
  by (induction xs) (auto split: sum.splits option.splits)

lemma enumerate_0_conv: "enumerate 0 xs = map (\<lambda>i. (i, xs ! i)) [0..<length xs]"
  by (rule nth_equalityI) (simp_all add: nth_enumerate_eq)

lemma concat_map_if:
  "concat (map (\<lambda>c. if P c then [(r, c)] else []) xs) = map (Pair r) (filter P xs)"
  by (induction xs) auto

lemma emptySquares_conv:
  "emptySquares g =
     concat (map (\<lambda>r. map (Pair r) (filter (\<lambda>c. g ! r ! c = Grey) [0..<length (g ! r)]))
               [0..<length g])"
  by (simp add: emptySquares_def concat_map_if)

lemma emptySquares_inBounds:
  assumes "p \<in> set (emptySquares g)"
  shows "inBounds g (redAt p) \<and> inBounds g (blueAt p)"
  using assms by (auto simp: emptySquares_def inBounds_def redAt_def blueAt_def)

lemma playMove_then_complete:
  assumes "inBounds g m"
  shows "(case playMove (boardOf g) m of
            Inl e \<Rightarrow> Inl e
          | Inr (newBoard, ignored) \<Rightarrow> validateBoard (naiveAutocompleteBoard newBoard))
         = probe g m"
  by (simp add: playMove_inBounds [OF assms] split: sum.splits)

lemma negateSquare_Val:
  assumes r: "r < length g" and c: "c < length (g ! r)"
  shows "negateSquare (boardOf g) r (c, Val (g ! r ! c))
           = (if g ! r ! c = Grey then decide g (r, c) else Inr None)"
proof (cases "g ! r ! c = Grey")
  case False
  then show ?thesis by (simp add: negateSquare_def)
next
  case True
  let ?red = "\<lparr>moveColor = Red, moveRow = int r, moveColumn = int c\<rparr>"
  let ?blue = "\<lparr>moveColor = Blue, moveRow = int r, moveColumn = int c\<rparr>"
  have mv: "redAt (r, c) = ?red" "blueAt (r, c) = ?blue"
    by (simp_all add: redAt_def blueAt_def)
  have ib: "inBounds g ?red" "inBounds g ?blue"
    using r c by (simp_all add: inBounds_def)
  have "negateSquare (boardOf g) r (c, Val (g ! r ! c))
          = (case (case playMove (boardOf g) ?red of
                     Inl e \<Rightarrow> Inl e
                   | Inr (newBoard, ignored) \<Rightarrow>
                       validateBoard (naiveAutocompleteBoard newBoard)) of
               Inl e \<Rightarrow> Inl e
             | Inr (Some v) \<Rightarrow> Inr (Some (?blue, v))
             | Inr None \<Rightarrow>
                 (case (case playMove (boardOf g) ?blue of
                          Inl e \<Rightarrow> Inl e
                        | Inr (newBoard, ignored) \<Rightarrow>
                            validateBoard (naiveAutocompleteBoard newBoard)) of
                    Inl e \<Rightarrow> Inl e
                  | Inr (Some v) \<Rightarrow> Inr (Some (?red, v))
                  | Inr None \<Rightarrow> Inr None))"
    using True
    by (simp add: negateSquare_def Let_def split: sum.splits prod.splits option.splits)
  also have "\<dots> = decide g (r, c)"
    unfolding playMove_then_complete [OF ib(1)] playMove_then_complete [OF ib(2)]
      decide_def mv
    by (rule refl)
  finally show ?thesis using True by simp
qed

lemma findMoveByNegation_refines:
  "findMoveByNegation (boardOf g) = firstHitE (decide g) (emptySquares g)"
proof -
  let ?b = "boardOf g"
  have row: "firstHitE (negateSquare ?b r) (entries (map Val (g ! r)))
               = firstHitE (decide g)
                   (map (Pair r) (filter (\<lambda>c. g ! r ! c = Grey) [0..<length (g ! r)]))"
    if r: "r < length g" for r
  proof -
    have "entries (map Val (g ! r)) = map (\<lambda>c. (c, Val (g ! r ! c))) [0..<length (g ! r)]"
      by (simp add: entries_def enumerate_0_conv comp_def)
    then have "firstHitE (negateSquare ?b r) (entries (map Val (g ! r)))
          = firstHitE (\<lambda>c. negateSquare ?b r (c, Val (g ! r ! c))) [0..<length (g ! r)]"
      by (simp add: firstHitE_map)
    also have "\<dots> = firstHitE (\<lambda>c. if g ! r ! c = Grey then decide g (r, c) else Inr None)
              [0..<length (g ! r)]"
      by (rule firstHitE_cong) (simp add: negateSquare_Val [OF r])
    finally show ?thesis
      by (simp add: firstHitE_filter firstHitE_map)
  qed
  have "findMoveByNegation ?b
          = firstHitE (\<lambda>r. firstHitE (negateSquare ?b r) (entries (?b ! r))) [0..<length g]"
    by (simp add: findMoveByNegation_def rows_def enumerate_0_conv firstHitE_map)
  also have "\<dots> = firstHitE (\<lambda>r. firstHitE (decide g)
        (map (Pair r) (filter (\<lambda>c. g ! r ! c = Grey) [0..<length (g ! r)]))) [0..<length g]"
    by (rule firstHitE_cong) (simp add: row)
  also have "\<dots> = firstHitE (decide g) (emptySquares g)"
    by (simp add: firstHitE_concat emptySquares_conv)
  finally show ?thesis .
qed

lemma firstHitE_Some_iff:
  "firstHitE f xs = Inr (Some y) \<longleftrightarrow>
     (\<exists>pre x post. xs = pre @ x # post \<and> (\<forall>q \<in> set pre. f q = Inr None) \<and> f x = Inr (Some y))"
proof (induction xs)
  case Nil
  then show ?case by simp
next
  case (Cons a xs)
  show ?case
  proof (cases "f a")
    case (Inl e)
    then show ?thesis
      by (auto simp: Cons_eq_append_conv)
  next
    case (Inr o1)
    show ?thesis
    proof (cases o1)
      case None
      have "(\<exists>pre x post. a # xs = pre @ x # post \<and> (\<forall>q \<in> set pre. f q = Inr None)
                \<and> f x = Inr (Some y))
            \<longleftrightarrow> (\<exists>pre x post. xs = pre @ x # post \<and> (\<forall>q \<in> set pre. f q = Inr None)
                \<and> f x = Inr (Some y))"
        (is "?L \<longleftrightarrow> ?R")
      proof
        assume ?L
        then obtain pre x post where e: "a # xs = pre @ x # post"
          and p: "\<forall>q \<in> set pre. f q = Inr None" and x: "f x = Inr (Some y)" by blast
        show ?R
        proof (cases pre)
          case Nil
          then show ?thesis using e x Inr None by simp
        next
          case (Cons a' pre')
          then have "xs = pre' @ x # post" "\<forall>q \<in> set pre'. f q = Inr None"
            using e p by simp_all
          then show ?thesis using x by blast
        qed
      next
        assume ?R
        then obtain pre x post where e: "xs = pre @ x # post"
          and p: "\<forall>q \<in> set pre. f q = Inr None" and x: "f x = Inr (Some y)" by blast
        have "a # xs = (a # pre) @ x # post" "\<forall>q \<in> set (a # pre). f q = Inr None"
          using e p Inr None by simp_all
        then show ?L using x by blast
      qed
      then show ?thesis
        using Cons.IH by (simp add: Inr None)
    next
      case (Some z)
      have "(\<exists>pre x post. a # xs = pre @ x # post \<and> (\<forall>q \<in> set pre. f q = Inr None)
                \<and> f x = Inr (Some y)) \<longleftrightarrow> z = y"
        (is "?L \<longleftrightarrow> _")
      proof
        assume ?L
        then obtain pre x post where e: "a # xs = pre @ x # post"
          and p: "\<forall>q \<in> set pre. f q = Inr None" and x: "f x = Inr (Some y)" by blast
        show "z = y"
        proof (cases pre)
          case Nil
          then show ?thesis using e x Inr Some by simp
        next
          case (Cons a' pre')
          then have "f a = Inr None" using e p by simp
          then show ?thesis using Inr Some by simp
        qed
      next
        assume "z = y"
        then have "a # xs = [] @ a # xs \<and> (\<forall>q \<in> set []. f q = Inr None) \<and> f a = Inr (Some y)"
          using Inr Some by simp
        then show ?L by blast
      qed
      then show ?thesis
        by (simp add: Inr Some)
    qed
  qed
qed

lemma firstHitE_None_iff:
  "firstHitE f xs = Inr None \<longleftrightarrow> (\<forall>q \<in> set xs. f q = Inr None)"
  by (induction xs) (auto split: sum.splits option.splits)


lemma two_probes_None:
  "(case a of
      Inl e \<Rightarrow> Inl e
    | Inr (Some v) \<Rightarrow> Inr (Some (mb, v))
    | Inr None \<Rightarrow>
        (case b of
           Inl e \<Rightarrow> Inl e
         | Inr (Some v) \<Rightarrow> Inr (Some (mr, v))
         | Inr None \<Rightarrow> Inr None)) = Inr None
   \<longleftrightarrow> a = Inr None \<and> b = Inr None"
  by (auto split: sum.splits option.splits)

lemma two_probes_Some:
  "(case a of
      Inl e \<Rightarrow> Inl e
    | Inr (Some v) \<Rightarrow> Inr (Some (mb, v))
    | Inr None \<Rightarrow>
        (case b of
           Inl e \<Rightarrow> Inl e
         | Inr (Some v) \<Rightarrow> Inr (Some (mr, v))
         | Inr None \<Rightarrow> Inr None)) = Inr (Some (m, w))
   \<longleftrightarrow> a = Inr (Some w) \<and> m = mb \<or> a = Inr None \<and> b = Inr (Some w) \<and> m = mr"
  by (auto split: sum.splits option.splits)

lemma decide_None:
  "decide g p = Inr None \<longleftrightarrow> probe g (redAt p) = Inr None \<and> probe g (blueAt p) = Inr None"
  unfolding decide_def by (rule two_probes_None)

lemma decide_Some:
  "decide g p = Inr (Some (m, v)) \<longleftrightarrow>
     probe g (redAt p) = Inr (Some v) \<and> m = blueAt p
     \<or> probe g (redAt p) = Inr None \<and> probe g (blueAt p) = Inr (Some v) \<and> m = redAt p"
  unfolding decide_def by (rule two_probes_Some)

text \<open>
  C3. \<open>findMoveByNegation\<close> scans the empty squares in row-major order and answers at
  the first one that gives a decision, all earlier empty squares having given none (both
  probes without violation). The probe of a colour at a square takes the grid with that
  square set to the colour, validates it as \<open>playMove\<close> does, completes it naively and
  validates the completion. At the deciding square a violation found by the red probe
  gives the move \<open>Blue\<close> there with that violation, whatever the blue probe would give;
  when the red probe finds no violation, a violation found by the blue probe gives the
  move \<open>Red\<close> there with that violation. It returns nothing exactly when every empty
  square has been tried and both probes found no violation at each.
\<close>

theorem findMoveByNegation_scan:
  "(findMoveByNegation (boardOf g) = Inr (Some (m, v)) \<longleftrightarrow>
      (\<exists>pre p post. emptySquares g = pre @ p # post
         \<and> (\<forall>q \<in> set pre. probe g (redAt q) = Inr None \<and> probe g (blueAt q) = Inr None)
         \<and> (probe g (redAt p) = Inr (Some v) \<and> m = blueAt p
            \<or> probe g (redAt p) = Inr None
              \<and> probe g (blueAt p) = Inr (Some v) \<and> m = redAt p)))
   \<and> (findMoveByNegation (boardOf g) = Inr None \<longleftrightarrow>
        (\<forall>q \<in> set (emptySquares g).
            probe g (redAt q) = Inr None \<and> probe g (blueAt q) = Inr None))
   \<and> findMoveByNegation (boardOf g) = firstHitE (decide g) (emptySquares g)"
  unfolding findMoveByNegation_refines firstHitE_Some_iff firstHitE_None_iff
    decide_None decide_Some
  by simp

theorem findMoveByNegation_scan_witness:
  "findMoveByNegation (boardOf [[Red, Red, Grey], [Grey, Grey, Grey], [Grey, Grey, Grey]])
     = Inr (Some (\<lparr>moveColor = Blue, moveRow = 0, moveColumn = 2\<rparr>,
                  ThriceRepetitionRow 0 (0, 1, 2) (Val Red)))
   \<and> findMoveByNegation (boardOf [[Grey, Grey, Grey, Grey], [Blue, Blue, Grey, Grey],
                                    [Grey, Grey, Grey, Grey], [Grey, Grey, Grey, Grey]])
       = Inr (Some (\<lparr>moveColor = Red, moveRow = 1, moveColumn = 2\<rparr>,
                    ThriceRepetitionRow 1 (0, 1, 2) (Val Blue)))
   \<and> findMoveByNegation (boardOf [[Grey, Grey], [Grey, Grey]]) = Inr None"
proof (intro conjI)
  let ?g = "[[Red, Red, Grey], [Grey, Grey, Grey], [Grey, Grey, Grey]]"
  let ?v = "ThriceRepetitionRow 0 (0, 1, 2) (Val Red)"
  have sq: "emptySquares ?g = [] @ (0, 2) # [(1, 0), (1, 1), (1, 2), (2, 0), (2, 1), (2, 2)]"
    by code_simp
  have red: "probe ?g (redAt (0, 2)) = Inr (Some ?v)"
    by code_simp
  have m: "\<lparr>moveColor = Blue, moveRow = 0, moveColumn = 2\<rparr> = blueAt (0, 2)"
    by (simp add: blueAt_def)
  show "findMoveByNegation (boardOf ?g)
          = Inr (Some (\<lparr>moveColor = Blue, moveRow = 0, moveColumn = 2\<rparr>, ?v))"
    by (rule findMoveByNegation_scan [THEN conjunct1, THEN iffD2],
        rule exI [of _ "[]"], rule exI [of _ "(0, 2)"], rule exI, intro conjI, rule sq,
        simp, rule disjI1, intro conjI, rule red, rule m)
next
  let ?g = "[[Grey, Grey, Grey, Grey], [Blue, Blue, Grey, Grey],
             [Grey, Grey, Grey, Grey], [Grey, Grey, Grey, Grey]]"
  let ?v = "ThriceRepetitionRow 1 (0, 1, 2) (Val Blue)"
  let ?pre = "[(0, 0), (0, 1), (0, 2), (0, 3 :: nat)] :: (nat \<times> nat) list"
  have sq: "emptySquares ?g = ?pre @ (1, 2) #
      [(1, 3), (2, 0), (2, 1), (2, 2), (2, 3), (3, 0), (3, 1), (3, 2), (3, 3)]"
    by code_simp
  have none: "\<forall>q \<in> set ?pre. probe ?g (redAt q) = Inr None \<and> probe ?g (blueAt q) = Inr None"
    by code_simp
  have red: "probe ?g (redAt (1, 2)) = Inr None"
    by code_simp
  have blue: "probe ?g (blueAt (1, 2)) = Inr (Some ?v)"
    by code_simp
  have m: "\<lparr>moveColor = Red, moveRow = 1, moveColumn = 2\<rparr> = redAt (1, 2)"
    by (simp add: redAt_def)
  show "findMoveByNegation (boardOf ?g)
          = Inr (Some (\<lparr>moveColor = Red, moveRow = 1, moveColumn = 2\<rparr>, ?v))"
    by (rule findMoveByNegation_scan [THEN conjunct1, THEN iffD2],
        rule exI [of _ ?pre], rule exI [of _ "(1, 2)"], rule exI, intro conjI, rule sq,
        rule none, rule disjI2, intro conjI, rule red, rule blue, rule m)
next
  let ?h = "[[Grey, Grey], [Grey, Grey]]"
  have "\<forall>q \<in> set (emptySquares ?h).
          probe ?h (redAt q) = Inr None \<and> probe ?h (blueAt q) = Inr None"
    by code_simp
  then show "findMoveByNegation (boardOf ?h) = Inr None"
    by (rule findMoveByNegation_scan [THEN conjunct2, THEN conjunct1, THEN iffD2])
qed

section \<open>Probing squares of a square board\<close>

lemma naiveAutocompleteBoard_square:
  assumes "square g"
  shows "\<exists>g'. naiveAutocompleteBoard (boardOf g) = boardOf g' \<and> square g' \<and> length g' = length g"
proof -
  let ?out = "naiveAutocompleteBoard (boardOf g)"
  let ?n = "length g"
  let ?nb = "boardOf (map completeRow g)"
  have out: "?out = columnLoop 0 (columns ?nb) ?nb"
    by (simp add: naiveAutocompleteBoard_columnLoop rowPass_boardOf Let_def)
  have len: "length ?out = ?n"
    by (simp add: out)
  have rowlen: "length (?out ! r) = ?n" if "r < ?n" for r
  proof -
    have "length (?nb ! r) = ?n" using that assms by (simp add: square_nth)
    moreover have "columns ?nb \<noteq> []" using that by (auto simp: columns_def)
    ultimately show ?thesis
      using that by (simp add: out length_columnLoop_row)
  qed
  have cell: "\<exists>x. ?out ! r ! c = Val x" if "r < ?n" "c < ?n" for r c
    using naiveAutocompleteBoard_cell [of r g c] that assms by (auto simp: square_nth)
  define g' where "g' = map (map colorOfCell) ?out"
  have "boardOf g' = ?out"
  proof (rule nth_equalityI)
    show "length (boardOf g') = length ?out" by (simp add: g'_def)
  next
    fix r assume "r < length (boardOf g')"
    then have r: "r < ?n" by (simp add: g'_def len)
    have "map Val (map colorOfCell (?out ! r)) = ?out ! r"
    proof (rule nth_equalityI)
      show "length (map Val (map colorOfCell (?out ! r))) = length (?out ! r)" by simp
    next
      fix c assume "c < length (map Val (map colorOfCell (?out ! r)))"
      then have c: "c < ?n" by (simp add: rowlen [OF r])
      from cell [OF r c] obtain x where "?out ! r ! c = Val x" by blast
      then show "map Val (map colorOfCell (?out ! r)) ! c = ?out ! r ! c"
        using c by (simp add: rowlen [OF r] colorOfCell_def)
    qed
    then show "boardOf g' ! r = ?out ! r"
      using r by (simp add: g'_def len)
  qed
  moreover have "square g'"
    by (auto simp: square_iff g'_def len in_set_conv_nth rowlen)
  moreover have "length g' = ?n"
    by (simp add: g'_def len)
  ultimately show ?thesis by metis
qed

lemma probe_Inr:
  assumes "square g" and "inBounds g m"
  shows "\<exists>v. probe g m = Inr v"
proof -
  have sq: "square (played g m)" by (rule square_played [OF assms(1)])
  from validateBoard_Inr [OF square_wide [OF sq]] obtain w where
    w: "validateBoard (boardOf (played g m)) = Inr w" by blast
  from naiveAutocompleteBoard_square [OF sq] obtain g' where
    "naiveAutocompleteBoard (boardOf (played g m)) = boardOf g'" "square g'" by blast
  then show ?thesis
    using validateBoard_Inr [OF square_wide, of g'] by (simp add: w)
qed

lemma decide_Inr:
  assumes "square g" and "p \<in> set (emptySquares g)"
  shows "\<exists>d. decide g p = Inr d"
proof -
  from probe_Inr [OF assms(1)] emptySquares_inBounds [OF assms(2)]
  obtain vr vb where vr: "probe g (redAt p) = Inr vr" and vb: "probe g (blueAt p) = Inr vb"
    by blast
  show ?thesis
    unfolding decide_def vr vb by (cases vr; cases vb) simp_all
qed

lemma findMoveByNegation_Inr:
  assumes "square g"
  shows "\<exists>d. findMoveByNegation (boardOf g) = Inr d"
  unfolding findMoveByNegation_refines
  by (rule firstHitE_Inr) (rule decide_Inr [OF assms])

lemma findMoveByNegation_inBounds:
  assumes "findMoveByNegation (boardOf g) = Inr (Some (m, v))"
  shows "inBounds g m"
proof -
  from assms obtain p where p: "p \<in> set (emptySquares g)"
    and d: "decide g p = Inr (Some (m, v))"
    unfolding findMoveByNegation_refines by (auto dest: firstHitE_Some)
  from d have "m = redAt p \<or> m = blueAt p" by (auto simp: decide_Some)
  then show ?thesis using emptySquares_inBounds [OF p] by auto
qed

section \<open>The solver\<close>

lemma playMovesFrom_append:
  "playMovesFrom cur (enumerate k (ms @ [m])) =
     (case playMovesFrom cur (enumerate k ms) of
        Inl e \<Rightarrow> Inl e
      | Inr (Stopped nb i v) \<Rightarrow> Inr (Stopped nb i v)
      | Inr (Played nb) \<Rightarrow>
          (case playMove nb m of
             Inl e \<Rightarrow> Inl e
           | Inr (nb', Some v) \<Rightarrow> Inr (Stopped nb' (k + length ms) v)
           | Inr (nb', None) \<Rightarrow> Inr (Played nb')))"
proof (induction ms arbitrary: cur k)
  case Nil
  then show ?case by (simp split: sum.splits option.splits prod.splits)
next
  case (Cons a ms)
  show ?case
    using Cons.IH [of _ "Suc k"]
    by (simp split: sum.splits option.splits prod.splits playMovesResult.splits)
qed

lemma playMoves_append:
  "playMoves board (ms @ [m]) =
     (case playMoves board ms of
        Inl e \<Rightarrow> Inl e
      | Inr (Stopped nb i v) \<Rightarrow> Inr (Stopped nb i v)
      | Inr (Played nb) \<Rightarrow>
          (case playMove nb m of
             Inl e \<Rightarrow> Inl e
           | Inr (nb', Some v) \<Rightarrow> Inr (Stopped nb' (length ms) v)
           | Inr (nb', None) \<Rightarrow> Inr (Played nb')))"
  by (simp add: playMoves_def playMovesFrom_append
      split: sum.splits option.splits prod.splits playMovesResult.splits)

lemma playMoves_Nil: "playMoves board [] = Inr (Played (cloneBoard board))"
  by (simp add: playMoves_def)

lemma answered_iff:
  "answered board ms \<longleftrightarrow>
     (\<forall>i < length ms. \<exists>cur. playMoves board (map fst (take i ms)) = Inr (Played cur)
                          \<and> findMoveByNegation cur = Inr (Some (ms ! i)))"
proof -
  have "(case playMoves board (map fst (take i ms)) of
           Inr (Played cur) \<Rightarrow> findMoveByNegation cur = Inr (Some (ms ! i))
         | _ \<Rightarrow> False)
        \<longleftrightarrow> (\<exists>cur. playMoves board (map fst (take i ms)) = Inr (Played cur)
                   \<and> findMoveByNegation cur = Inr (Some (ms ! i)))" for i
    by (cases "playMoves board (map fst (take i ms))")
      (auto split: playMovesResult.splits)
  then show ?thesis
    by (auto simp: answered_def list_all_iff)
qed

lemma answered_snoc:
  assumes "answered board ms"
    and "playMoves board (map fst ms) = Inr (Played cur)"
    and "findMoveByNegation cur = Inr (Some forced)"
  shows "answered board (ms @ [forced])"
  unfolding answered_iff
proof (intro allI impI)
  fix i assume "i < length (ms @ [forced])"
  then consider "i < length ms" | "i = length ms" by fastforce
  then show "\<exists>cur. playMoves board (map fst (take i (ms @ [forced]))) = Inr (Played cur)
                 \<and> findMoveByNegation cur = Inr (Some ((ms @ [forced]) ! i))"
  proof cases
    case 1
    then show ?thesis using assms(1) by (simp add: answered_iff nth_append)
  next
    case 2
    then show ?thesis using assms(2,3) by simp
  qed
qed

lemma solveLoop_result:
  assumes "solveLoop bound cur ms next k = Inr (fb, ms', tv)"
    and "playMoves board (map fst ms) = Inr (Played cur)"
    and "findMoveByNegation cur = Inr next"
    and "length ms = k" and "k \<le> bound"
    and "answered board ms"
  shows "length ms' \<le> bound
         \<and> answered board ms'
         \<and> (case tv of
               None \<Rightarrow> playMoves board (map fst ms') = Inr (Played fb)
                        \<and> (findMoveByNegation fb = Inr None \<or> length ms' = bound)
             | Some v \<Rightarrow> ms' \<noteq> []
                        \<and> playMoves board (map fst ms') = Inr (Stopped fb (length ms' - 1) v))"
  using assms
proof (induction "bound - k" arbitrary: cur ms "next" k)
  case 0
  then have k: "k = bound" by simp
  from "0.prems"(1) have "fb = cur \<and> ms' = ms \<and> tv = None"
    by (subst (asm) solveLoop.simps) (simp add: k split: option.splits)
  then show ?case using "0.prems" k by simp
next
  case (Suc d)
  then have lt: "k < bound" by simp
  show ?case
  proof (cases "next")
    case None
    from Suc.prems(1) have "fb = cur \<and> ms' = ms \<and> tv = None"
      by (subst (asm) solveLoop.simps) (simp add: None)
    then show ?thesis using Suc.prems None by simp
  next
    case (Some forced)
    show ?thesis
    proof (cases "playMove cur (fst forced)")
      case (Inl e)
      then show ?thesis
        using Suc.prems(1) lt by (subst (asm) solveLoop.simps) (simp add: Some)
    next
      case (Inr p)
      obtain nb ov where p: "p = (nb, ov)" by (cases p)
      show ?thesis
      proof (cases ov)
        case (Some v)
        from Suc.prems(1) have res: "fb = nb \<and> ms' = ms @ [forced] \<and> tv = Some v"
          using lt by (subst (asm) solveLoop.simps) (simp add: \<open>next = Some forced\<close> Inr p Some)
        have "playMoves board (map fst (ms @ [forced])) = Inr (Stopped nb (length ms) v)"
          by (simp add: playMoves_append Suc.prems(2) Inr p Some)
        moreover have "answered board (ms @ [forced])"
          using answered_snoc [OF Suc.prems(6) Suc.prems(2)] Suc.prems(3) \<open>next = Some forced\<close>
          by simp
        ultimately show ?thesis
          using res Suc.prems(4) lt by simp
      next
        case None
        show ?thesis
        proof (cases "findMoveByNegation nb")
          case (Inl e)
          then show ?thesis
            using Suc.prems(1) lt
            by (subst (asm) solveLoop.simps) (simp add: \<open>next = Some forced\<close> \<open>playMove cur (fst forced) = Inr p\<close> p None)
        next
          case (Inr next')
          from Suc.prems(1) have run: "solveLoop bound nb (ms @ [forced]) next' (Suc k) = Inr (fb, ms', tv)"
            using lt
            by (subst (asm) solveLoop.simps) (simp add: \<open>next = Some forced\<close> \<open>playMove cur (fst forced) = Inr p\<close> p None Inr)
          have pm: "playMoves board (map fst (ms @ [forced])) = Inr (Played nb)"
            by (simp add: playMoves_append Suc.prems(2) \<open>playMove cur (fst forced) = Inr p\<close> p None)
          have an: "answered board (ms @ [forced])"
            using answered_snoc [OF Suc.prems(6) Suc.prems(2)] Suc.prems(3) \<open>next = Some forced\<close>
            by simp
          have d: "d = bound - Suc k" using Suc.hyps(2) by simp
          show ?thesis
            using Suc.hyps(1) [OF d run pm Inr _ _ an] Suc.prems(4) lt by simp
        qed
      qed
    qed
  qed
qed


lemma solveLoop_Inr:
  assumes "square g" and "\<And>m v. next = Some (m, v) \<Longrightarrow> inBounds g m"
  shows "\<exists>res. solveLoop bound (boardOf g) ms next k = Inr res"
  using assms
proof (induction "bound - k" arbitrary: g ms "next" k)
  case 0
  then show ?case
    by (subst solveLoop.simps) (simp split: option.splits)
next
  case (Suc d)
  then have lt: "k < bound" by simp
  show ?case
  proof (cases "next")
    case None
    then show ?thesis by (subst solveLoop.simps) simp
  next
    case (Some forced)
    obtain m v where forced: "forced = (m, v)" by (cases forced)
    have ib: "inBounds g m" using Suc.prems(2) Some forced by simp
    from playMove_square [OF Suc.prems(1) ib] obtain ov where
      p: "playMove (boardOf g) m = Inr (boardOf (played g m), ov)" by blast
    have sq: "square (played g m)" by (rule square_played [OF Suc.prems(1)])
    show ?thesis
    proof (cases ov)
      case (Some v')
      then show ?thesis
        using lt by (subst solveLoop.simps) (simp add: \<open>next = Some forced\<close> forced p)
    next
      case None
      from findMoveByNegation_Inr [OF sq] obtain next' where
        f: "findMoveByNegation (boardOf (played g m)) = Inr next'" by blast
      have d: "d = bound - Suc k" using Suc.hyps(2) by simp
      have "\<exists>res. solveLoop bound (boardOf (played g m)) (ms @ [forced]) next' (Suc k) = Inr res"
        by (rule Suc.hyps(1) [OF d sq]) (use f in \<open>auto dest: findMoveByNegation_inBounds\<close>)
      then show ?thesis
        using lt by (subst solveLoop.simps) (simp add: \<open>next = Some forced\<close> forced p None f)
    qed
  qed
qed

text \<open>
  C7. \<open>trySolveByNegation\<close> terminates on every board: its loop is \<open>solveLoop\<close>, whose
  termination is proved with the measure \<open>bound - moveCount\<close>, the bound being the square
  of the number of rows. It either throws (which a square grid of colours never causes)
  or returns \<open>(board, moves, unexpectedViolation)\<close> such that
  \<^item> at most \<open>board.length\<close> squared moves are recorded, whatever the board holds;
  \<^item> every recorded move was the finder's answer on the board it was applied to, so the
    loop never goes on after the finder has returned nothing;
  \<^item> without a terminal violation, applying the recorded moves in order gives the
    returned board with no violation on the way, and the finder returns nothing on it
    unless the bound is reached;
  \<^item> with a terminal violation, the last recorded move is the first whose application
    violates a rule, and the returned board and violation are those of that application.
\<close>

theorem trySolveByNegation_bounded:
  "(trySolveByNegation board = Inl TypeError
    \<or> (\<exists>fb ms tv. trySolveByNegation board = Inr (fb, ms, tv)
          \<and> length ms \<le> (length board)\<^sup>2
          \<and> answered board ms
          \<and> (case tv of
                None \<Rightarrow> playMoves board (map fst ms) = Inr (Played fb)
                         \<and> (findMoveByNegation fb = Inr None \<or> length ms = (length board)\<^sup>2)
              | Some v \<Rightarrow> ms \<noteq> []
                         \<and> playMoves board (map fst ms) = Inr (Stopped fb (length ms - 1) v))))
   \<and> (square g \<longrightarrow> (\<exists>fb ms tv. trySolveByNegation (boardOf g) = Inr (fb, ms, tv)))"
proof
  show "trySolveByNegation board = Inl TypeError
    \<or> (\<exists>fb ms tv. trySolveByNegation board = Inr (fb, ms, tv)
          \<and> length ms \<le> (length board)\<^sup>2
          \<and> answered board ms
          \<and> (case tv of
                None \<Rightarrow> playMoves board (map fst ms) = Inr (Played fb)
                         \<and> (findMoveByNegation fb = Inr None \<or> length ms = (length board)\<^sup>2)
              | Some v \<Rightarrow> ms \<noteq> []
                         \<and> playMoves board (map fst ms) = Inr (Stopped fb (length ms - 1) v)))"
  proof (cases "trySolveByNegation board")
    case (Inl e)
    then show ?thesis by (cases e) simp
  next
    case (Inr res)
    obtain fb ms tv where res: "res = (fb, ms, tv)" by (cases res)
    from Inr obtain nextMove where f: "findMoveByNegation (cloneBoard board) = Inr nextMove"
      and run: "solveLoop ((length board)\<^sup>2) (cloneBoard board) [] nextMove 0 = Inr (fb, ms, tv)"
      by (auto simp: trySolveByNegation_def Let_def res split: sum.splits)
    have "answered board []" by (simp add: answered_def)
    from solveLoop_result [OF run _ f _ _ this, of ] show ?thesis
      by (simp add: playMoves_Nil Inr res)
  qed
  show "square g \<longrightarrow> (\<exists>fb ms tv. trySolveByNegation (boardOf g) = Inr (fb, ms, tv))"
  proof
    assume sq: "square g"
    from findMoveByNegation_Inr [OF sq] obtain nextMove where
      f: "findMoveByNegation (boardOf g) = Inr nextMove" by blast
    have "\<exists>res. solveLoop ((length (boardOf g))\<^sup>2) (boardOf g) [] nextMove 0 = Inr res"
      by (rule solveLoop_Inr [OF sq]) (use f in \<open>auto dest: findMoveByNegation_inBounds\<close>)
    then show "\<exists>fb ms tv. trySolveByNegation (boardOf g) = Inr (fb, ms, tv)"
      by (auto simp: trySolveByNegation_def f)
  qed
qed

theorem trySolveByNegation_bounded_witness:
  "(\<exists>fb ms tv. trySolveByNegation (boardOf [[Red, Grey], [Grey, Grey]]) = Inr (fb, ms, tv)
       \<and> length ms \<le> (length (boardOf [[Red, Grey], [Grey, Grey]]))\<^sup>2
       \<and> answered (boardOf [[Red, Grey], [Grey, Grey]]) ms)
   \<and> trySolveByNegation (boardOf [[Red, Grey], [Grey, Grey]])
       = Inr (boardOf [[Red, Blue], [Blue, Red]],
              [(\<lparr>moveColor = Blue, moveRow = 0, moveColumn = 1\<rparr>,
                OverSaturationRow 0 [0, 1] Red),
               (\<lparr>moveColor = Blue, moveRow = 1, moveColumn = 0\<rparr>,
                OverSaturationColumn 0 [0, 1] Red),
               (\<lparr>moveColor = Red, moveRow = 1, moveColumn = 1\<rparr>,
                OverSaturationRow 1 [0, 1] Blue)],
              None)
   \<and> trySolveByNegation (boardOf [[Red, Red, Grey], [Grey, Grey, Grey], [Grey, Grey, Grey]])
       = Inr (boardOf [[Red, Red, Blue], [Grey, Grey, Grey], [Grey, Grey, Grey]],
              [(\<lparr>moveColor = Blue, moveRow = 0, moveColumn = 2\<rparr>,
                ThriceRepetitionRow 0 (0, 1, 2) (Val Red))],
              Some (OverSaturationRow 0 [0, 1] Red))"
proof (intro conjI)
  let ?g = "[[Red, Grey], [Grey, Grey]]"
  have sq: "square ?g" by (simp add: square_def)
  note inst = trySolveByNegation_bounded [of "boardOf ?g" ?g]
  from inst sq obtain fb ms tv where r: "trySolveByNegation (boardOf ?g) = Inr (fb, ms, tv)"
    by blast
  from inst r have "length ms \<le> (length (boardOf ?g))\<^sup>2 \<and> answered (boardOf ?g) ms"
    by auto
  with r show "\<exists>fb ms tv. trySolveByNegation (boardOf ?g) = Inr (fb, ms, tv)
       \<and> length ms \<le> (length (boardOf ?g))\<^sup>2 \<and> answered (boardOf ?g) ms"
    by blast
next
  show "trySolveByNegation (boardOf [[Red, Grey], [Grey, Grey]])
       = Inr (boardOf [[Red, Blue], [Blue, Red]],
              [(\<lparr>moveColor = Blue, moveRow = 0, moveColumn = 1\<rparr>,
                OverSaturationRow 0 [0, 1] Red),
               (\<lparr>moveColor = Blue, moveRow = 1, moveColumn = 0\<rparr>,
                OverSaturationColumn 0 [0, 1] Red),
               (\<lparr>moveColor = Red, moveRow = 1, moveColumn = 1\<rparr>,
                OverSaturationRow 1 [0, 1] Blue)],
              None)"
    by code_simp
next
  show "trySolveByNegation (boardOf [[Red, Red, Grey], [Grey, Grey, Grey], [Grey, Grey, Grey]])
       = Inr (boardOf [[Red, Red, Blue], [Grey, Grey, Grey], [Grey, Grey, Grey]],
              [(\<lparr>moveColor = Blue, moveRow = 0, moveColumn = 2\<rparr>,
                ThriceRepetitionRow 0 (0, 1, 2) (Val Red))],
              Some (OverSaturationRow 0 [0, 1] Red))"
    by code_simp
qed

end
